theory Spec2Isabelle
  imports Complex_Main
begin

text \<open>
  The class \<open>AzureBlockUpload\<close>: its constructor with \<open>analizeFile\<close> (the block plan), the
  block identifiers, and \<open>start\<close> with the job it hands to the pool for every block. The
  class exists in two variants; the newer one (with an identifier prefix and optional
  encryption) is the one modelled, and the older one is that job with the fixed prefix
  \<open>chunk\<close>, \<open>btoa\<close> for \<open>base64\<close> and no key.
\<close>

section \<open>JavaScript values, numbers and strings\<close>

text \<open>
  The values the constructor of \<open>AzureBlockUpload\<close> inspects with \<open>typeof\<close> and with
  JavaScript truthiness. Sizes are byte counts, so the finite numbers are integers
  (doubles are exact on them up to \<open>2^53\<close>).
\<close>

record file_object =
  file_name :: string
  file_size :: int
  file_type :: string

datatype jsval =
    JS_undefined
  | JS_null
  | JS_boolean bool
  | JS_number int
  | JS_string string
  | JS_file file_object

datatype jstype = T_undefined | T_object | T_boolean | T_number | T_string

fun typeof :: "jsval \<Rightarrow> jstype" where
  "typeof JS_undefined = T_undefined"
| "typeof JS_null = T_object"
| "typeof (JS_boolean b) = T_boolean"
| "typeof (JS_number n) = T_number"
| "typeof (JS_string s) = T_string"
| "typeof (JS_file f) = T_object"

fun truthy :: "jsval \<Rightarrow> bool" where
  "truthy JS_undefined = False"
| "truthy JS_null = False"
| "truthy (JS_boolean b) = b"
| "truthy (JS_number n) = (n \<noteq> 0)"
| "truthy (JS_string s) = (s \<noteq> [])"
| "truthy (JS_file f) = True"

text \<open>
  The result of \<open>%\<close>, \<open>/\<close> and \<open>Math.ceil\<close> on integers: a finite integer, or one of the
  special doubles a division by zero produces.
\<close>

datatype jsnum = Fin int | NaN | PosInf | NegInf

text \<open>\<open>a % b\<close>: the remainder has the sign of the dividend; \<open>a % 0\<close> is \<open>NaN\<close>.\<close>

definition js_rem :: "int \<Rightarrow> int \<Rightarrow> jsnum" where
  "js_rem a b =
     (if b = 0 then NaN
      else Fin (sgn a * (\<bar>a\<bar> mod \<bar>b\<bar>)))"

text \<open>
  \<open>a / b\<close> where it is evaluated only after \<open>a % b === 0\<close> succeeded, so the quotient is
  an integer (\<open>-0\<close> is not told apart from \<open>0\<close>: both compare equal to \<open>0\<close> and neither is
  greater than a loop counter starting at \<open>0\<close>).
\<close>

definition js_exact_div :: "int \<Rightarrow> int \<Rightarrow> jsnum" where
  "js_exact_div a b =
     (if b = 0 then (if a = 0 then NaN else if 0 < a then PosInf else NegInf)
      else Fin (a div b))"

text \<open>\<open>Math.ceil(a / b)\<close>; a zero divisor gives \<open>NaN\<close> or an infinity.\<close>

definition Math_ceil_div :: "int \<Rightarrow> int \<Rightarrow> jsnum" where
  "Math_ceil_div a b =
     (if b = 0 then (if a = 0 then NaN else if 0 < a then PosInf else NegInf)
      else Fin \<lceil>(of_int a :: rat) / of_int b\<rceil>)"

text \<open>
  \<open>String(n)\<close> for an integer: decimal digits, a minus sign for a negative number (the
  notation of JavaScript for every integer below \<open>10^21\<close>, as sizes and block indices are).
\<close>

definition digit_chars :: string where
  "digit_chars = ''0123456789''"

fun decimal :: "nat \<Rightarrow> string" where
  "decimal n =
     (if n < 10 then [digit_chars ! n]
      else decimal (n div 10) @ [digit_chars ! (n mod 10)])"

declare decimal.simps [simp del]

definition Number_toString :: "int \<Rightarrow> string" where
  "Number_toString i =
     (if i < 0 then CHR ''-'' # decimal (nat (- i)) else decimal (nat i))"

text \<open>
  \<open>padStart(string, length)\<close> of lodash, called with two arguments: the padding
  characters default to a single space, and a string that is already long enough is
  returned unchanged.
\<close>

definition padStart :: "string \<Rightarrow> nat \<Rightarrow> string" where
  "padStart str len =
     (if length str < len then replicate (len - length str) CHR '' '' @ str else str)"

text \<open>
  A JavaScript string is a sequence of UTF-16 code units, numbers below \<open>65536\<close>. The
  strings the class builds itself (decimal numbers, padding, ranges) and the texts that
  are only passed on (urls, types, base64 text) consist of characters up to \<open>U+00FF\<close> and
  are kept as \<open>string\<close>; the identifier prefix comes from the caller and may hold any
  code unit, so it is a \<open>jsstring\<close>.
\<close>

type_synonym jsstring = "nat list"

definition code_units :: "string \<Rightarrow> jsstring" where
  "code_units str = map of_char str"

text \<open>
  The RFC 4648 encoding of a sequence of bytes, three bytes to four characters, padded
  with \<open>=\<close>: what both \<open>window.btoa\<close> and \<open>Buffer.toString("base64")\<close> produce once they
  have bytes.
\<close>

definition b64chars :: string where
  "b64chars = ''ABCDEFGHIJKLMNOPQRSTUVWXYZabcdefghijklmnopqrstuvwxyz0123456789+/''"

definition b64 :: "nat \<Rightarrow> char" where
  "b64 i = b64chars ! i"

definition byte :: "char \<Rightarrow> nat" where
  "byte c = of_char c"

fun base64_bytes :: "string \<Rightarrow> string" where
  "base64_bytes [] = []"
| "base64_bytes [a] =
     [b64 (byte a div 4), b64 (byte a mod 4 * 16), CHR ''='', CHR ''='']"
| "base64_bytes [a, b] =
     [b64 (byte a div 4), b64 (byte a mod 4 * 16 + byte b div 16),
      b64 (byte b mod 16 * 4), CHR ''='']"
| "base64_bytes (a # b # c # rest) =
     [b64 (byte a div 4), b64 (byte a mod 4 * 16 + byte b div 16),
      b64 (byte b mod 16 * 4 + byte c div 64), b64 (byte c mod 64)] @ base64_bytes rest"

text \<open>
  \<open>window.btoa(str)\<close>: every code unit is one byte; a code unit above \<open>U+00FF\<close> makes it
  throw (an \<open>InvalidCharacterError\<close>).
\<close>

datatype error = Error string

definition btoa :: "jsstring \<Rightarrow> error + string" where
  "btoa str =
     (if list_all (\<lambda>c. c < 256) str then Inr (base64_bytes (map char_of str))
      else Inl (Error ''InvalidCharacterError''))"

text \<open>
  \<open>Buffer.from(str)\<close>: the UTF-8 encoding of the string. A high surrogate followed by a
  low one is one code point of four bytes; a surrogate on its own is encoded as
  \<open>U+FFFD\<close>. It never throws.
\<close>

definition high_surrogate :: "nat \<Rightarrow> bool" where
  "high_surrogate c \<longleftrightarrow> 55296 \<le> c \<and> c < 56320"

definition low_surrogate :: "nat \<Rightarrow> bool" where
  "low_surrogate c \<longleftrightarrow> 56320 \<le> c \<and> c < 57344"

definition utf8_code_point :: "nat \<Rightarrow> string" where
  "utf8_code_point c =
     (if c < 128 then [char_of c]
      else if c < 2048 then [char_of (192 + c div 64), char_of (128 + c mod 64)]
      else if c < 65536
        then [char_of (224 + c div 4096), char_of (128 + c div 64 mod 64),
              char_of (128 + c mod 64)]
      else [char_of (240 + c div 262144), char_of (128 + c div 4096 mod 64),
            char_of (128 + c div 64 mod 64), char_of (128 + c mod 64)])"

definition utf8_unit :: "nat \<Rightarrow> string" where
  "utf8_unit c =
     (if c < 128 then [char_of c]
      else utf8_code_point (if high_surrogate c \<or> low_surrogate c then 65533 else c))"

fun utf8 :: "jsstring \<Rightarrow> string" where
  "utf8 [] = []"
| "utf8 [c] = utf8_unit c"
| "utf8 (c # d # cs) =
     (if c < 128 then char_of c # utf8 (d # cs)
      else if high_surrogate c \<and> low_surrogate d
      then utf8_code_point (65536 + (c - 55296) * 1024 + (d - 56320)) @ utf8 cs
      else utf8_unit c @ utf8 (d # cs))"

text \<open>
  \<open>base64\<close>, the helper at the top of the module:
  \<open>isRunningOnWeb ? window.btoa(str) : Buffer.from(str).toString("base64")\<close>. The flag
  \<open>isRunningOnWeb\<close> is imported from another module and is a parameter here.
\<close>

definition base64 :: "bool \<Rightarrow> jsstring \<Rightarrow> error + string" where
  "base64 isRunningOnWeb str =
     (if isRunningOnWeb then btoa str else Inr (base64_bytes (utf8 str)))"

section \<open>The upload object: constructor and block planning\<close>

text \<open>
  What the constructor reads from outside the class: whether the global \<open>File\<close> exists
  (a browser), the service's \<open>BlobStorage.BLOCK_MAX_SIZE\<close>, and the two \<open>FileUtils\<close>
  accessors.
\<close>

record platform =
  File_is_function :: bool
  BLOCK_MAX_SIZE :: int
  getSize :: "jsval \<Rightarrow> int"
  getType :: "jsval \<Rightarrow> string"

record options =
  opt_blockIDPrefix :: "jsstring option"
  opt_blockSize :: jsval
  opt_simultaneousUploads :: jsval

record upload =
  url :: string
  the_file :: jsval
  blockSize :: int
  simultaneousUploads :: int
  blockIDPrefix :: jsstring
  fileSize :: int
  fileType :: string
  currentFilePointer :: int
  totalRemainingBytes :: int
  totalBlocks :: jsnum

text \<open>\<open>analizeFile\<close>: sizes, the shrunk block size and the number of blocks.\<close>

definition analizeFile :: "platform \<Rightarrow> upload \<Rightarrow> upload" where
  "analizeFile pf this =
     (let size = getSize pf (the_file this);
          this = this\<lparr>fileSize := size, fileType := getType pf (the_file this),
                       currentFilePointer := 0, totalRemainingBytes := size\<rparr>;
          this = (if fileSize this < blockSize this
                  then this\<lparr>blockSize := fileSize this\<rparr> else this)
      in this\<lparr>totalBlocks :=
            (if js_rem (fileSize this) (blockSize this) = Fin 0
             then js_exact_div (fileSize this) (blockSize this)
             else Math_ceil_div (fileSize this) (blockSize this))\<rparr>)"

text \<open>\<open>x || d\<close> for a number-valued option that passed the \<open>typeof\<close> check.\<close>

fun number_or :: "jsval \<Rightarrow> int \<Rightarrow> int" where
  "number_or (JS_number n) d = (if n \<noteq> 0 then n else d)"
| "number_or v d = d"

fun string_or :: "jsstring option \<Rightarrow> jsstring \<Rightarrow> jsstring" where
  "string_or (Some s) d = (if s \<noteq> [] then s else d)"
| "string_or None d = d"

fun is_file :: "jsval \<Rightarrow> bool" where
  "is_file (JS_file f) = True"
| "is_file v = False"

definition AzureBlockUpload :: "platform \<Rightarrow> jsval \<Rightarrow> jsval \<Rightarrow> options \<Rightarrow> error + upload" where
  "AzureBlockUpload pf url_arg file_arg opts =
     (case url_arg of
        JS_string u \<Rightarrow>
          if File_is_function pf \<and> \<not> is_file file_arg
            then Inl (Error ''file must be instance of File'')
          else if \<not> File_is_function pf \<and> typeof file_arg \<noteq> T_string
            then Inl (Error ''file must be instance of string'')
          else if truthy (opt_blockSize opts) \<and> typeof (opt_blockSize opts) \<noteq> T_number
            then Inl (Error ''blockSize must be a number'')
          else if truthy (opt_simultaneousUploads opts)
                  \<and> typeof (opt_simultaneousUploads opts) \<noteq> T_number
            then Inl (Error ''simultaneousUploads must be a number'')
          else Inr (analizeFile pf
                 \<lparr>url = u, the_file = file_arg,
                  blockSize = number_or (opt_blockSize opts) (BLOCK_MAX_SIZE pf),
                  simultaneousUploads = number_or (opt_simultaneousUploads opts) 3,
                  blockIDPrefix = string_or (opt_blockIDPrefix opts) (code_units ''block''),
                  fileSize = 0, fileType = [], currentFilePointer = 0,
                  totalRemainingBytes = 0, totalBlocks = NaN\<rparr>)
      | _ \<Rightarrow> Inl (Error ''url must be a string''))"

text \<open>
  The byte range and the identifier a job computes for block \<open>nBlock\<close>; the identifier
  is \<open>base64(`${this.blockIDPrefix}${padStart(nBlock, 5)}`)\<close>, which may throw.
\<close>

definition block_from :: "upload \<Rightarrow> nat \<Rightarrow> int" where
  "block_from this nBlock = int nBlock * blockSize this"

definition block_to :: "upload \<Rightarrow> nat \<Rightarrow> int" where
  "block_to this nBlock =
     (if (int nBlock + 1) * blockSize this < fileSize this
      then (int nBlock + 1) * blockSize this else fileSize this)"

definition blockID :: "bool \<Rightarrow> jsstring \<Rightarrow> nat \<Rightarrow> error + string" where
  "blockID isRunningOnWeb prefix nBlock =
     base64 isRunningOnWeb (prefix @ code_units (padStart (decimal nBlock) 5))"

section \<open>The jobs of \<open>start\<close>, the pool and the promise\<close>

text \<open>
  JavaScript runs one piece of code at a time: a job runs from one \<open>await\<close> to the next
  without interruption, and which awaited call settles next is up to the outside. So a
  run is \<open>start\<close> followed by a sequence of steps, each of which resumes one job at the
  \<open>await\<close> it is suspended at; the sequence (the schedule) is arbitrary.
\<close>

text \<open>
  A JavaScript array written at arbitrary indices (\<open>artifacts.iv[nBlock] = iv\<close>): a list
  whose holes are \<open>None\<close>; writing past the end extends it.
\<close>

definition arr_set :: "'a option list \<Rightarrow> nat \<Rightarrow> 'a \<Rightarrow> 'a option list" where
  "arr_set xs i v =
     (if i < length xs then xs[i := Some v]
      else xs @ replicate (i - length xs) None @ [Some v])"

definition arr_get :: "'a option list \<Rightarrow> nat \<Rightarrow> 'a option" where
  "arr_get xs i = (if i < length xs then xs ! i else None)"

text \<open>
  The object \<open>artifacts\<close> of \<open>start\<close>. Its fields \<open>at\<close> and \<open>range\<close> are \<open>at_of\<close> and
  \<open>range_of\<close> here; \<open>encryption_stratergy\<close> is spelled as in the source, and its value is
  the constant \<open>Cryppo.CipherStrategy.AES_GCM\<close>.
\<close>

datatype cipher_strategy = AES_GCM

type_synonym bytes = string

record artifacts =
  iv :: "bytes option list"
  ad :: string
  at_of :: "bytes option list"
  range_of :: "string option list"
  encryption_stratergy :: cipher_strategy

datatype encryption_key = EncryptionKey bytes

text \<open>
  The collaborators a job calls, and the flag \<open>isRunningOnWeb\<close> its identifier depends
  on. Each is a function of its arguments (and, for the
  random bytes, of the block that draws them); a failure is the \<open>Inl\<close> of an error.
  \<open>encryptWithKeyUsingArtefacts\<close> returns the ciphertext and the tag \<open>artifacts.at\<close>.
  Buffers and binary strings are one type of bytes, so the conversions between them
  (\<open>binaryBufferToString\<close>, \<open>stringAsBinaryBuffer\<close>, \<open>new Uint8Array\<close>) do not appear.
\<close>

record collaborators =
  isRunningOnWeb :: bool
  readBlock :: "jsval \<Rightarrow> int \<Rightarrow> int \<Rightarrow> error + bytes"
  randomBytes :: "nat \<Rightarrow> nat \<Rightarrow> bytes"
  encryptWithKeyUsingArtefacts ::
    "encryption_key \<Rightarrow> bytes \<Rightarrow> cipher_strategy \<Rightarrow> bytes \<Rightarrow> error + bytes \<times> bytes"
  putBlock :: "string \<Rightarrow> bytes \<Rightarrow> string \<Rightarrow> error + unit"
  putBlockList :: "string \<Rightarrow> string list \<Rightarrow> string \<Rightarrow> error + unit"

text \<open>
  What an upload does to the outside, in order: the calls to the collaborators and to the
  three callbacks. \<open>OnProgress k total name\<close> is the call with
  \<open>progress = k / total\<close> and \<open>fileName = name\<close>. The callbacks are taken to return
  normally.
\<close>

datatype event =
    Call_readBlock int int
  | Call_putBlock string bytes string
  | Call_putBlockList string "string list" string
  | OnProgress nat jsnum jsval
  | OnSuccess artifacts
  | OnError error

text \<open>
  The promise \<open>p\<close> of \<open>start\<close>. \<open>Fulfilled None\<close> is a promise resolved with
  \<open>undefined\<close>; \<open>Fulfilled (Some a)\<close> would be one resolved with \<open>{ artifacts: a }\<close>.
\<close>

datatype promise = Pending | Fulfilled "artifacts option" | Rejected error

fun resolve :: "artifacts option \<Rightarrow> promise \<Rightarrow> promise" where
  "resolve v Pending = Fulfilled v"
| "resolve v p = p"

fun reject :: "error \<Rightarrow> promise \<Rightarrow> promise" where
  "reject e Pending = Rejected e"
| "reject e p = p"

text \<open>
  Where the body of a job is: not yet begun, suspended at one of its three \<open>await\<close>s
  (holding the result the awaited call will deliver), returned, or ended in the
  \<open>catch\<close> block, with the place the error came from: the computation of the
  identifier, the read, the encryption, the transfer or the commit.
\<close>

datatype failure_site = InBlockID | InRead | InEncrypt | InPut | InCommit

datatype phase =
    NotStarted
  | AwaitRead "error + bytes"
  | AwaitPut "error + unit"
  | AwaitCommit "error + unit"
  | Returned
  | Caught failure_site

text \<open>
  The state the jobs of one \<open>start\<close> share: the field \<open>this.totalRemainingBytes\<close>,
  the closure variables \<open>blockIDList\<close> and \<open>artifacts\<close>, the promise, the position of
  every job, the pool (its queue and the number of tasks it is running) and the trace of
  calls made so far. The other fields of \<open>this\<close> are only read.
\<close>

record run_state =
  this_totalRemainingBytes :: int
  blockIDList :: "string list"
  artifacts :: artifacts
  promise :: promise
  phases :: "phase list"
  queue :: "nat list"
  running :: nat
  trace :: "event list"

text \<open>\<open>this.file.name\<close>: the name of a \<open>File\<close>, \<open>undefined\<close> for a path.\<close>

fun file_name_of :: "jsval \<Rightarrow> jsval" where
  "file_name_of (JS_file f) = JS_string (file_name f)"
| "file_name_of v = JS_undefined"

text \<open>
  The segments of a job return the position the job moves to, together with the shared
  state as they leave it.

  The \<open>catch\<close> block: \<open>onError(error)\<close>, then \<open>reject(error)\<close>.
\<close>

definition catch_error :: "failure_site \<Rightarrow> error \<Rightarrow> run_state \<Rightarrow> phase \<times> run_state" where
  "catch_error site e s =
     (Caught site, s\<lparr>trace := trace s @ [OnError e], promise := reject e (promise s)\<rparr>)"

text \<open>
  The job up to \<open>await FileUtils.readBlock\<close>: the range, the identifier, the push
  onto \<open>blockIDList\<close>, then the call of the read. All of it is inside the \<open>try\<close>, so
  when \<open>base64\<close> throws the job goes to its \<open>catch\<close> block with nothing pushed and no
  read called.
\<close>

definition job_start ::
  "upload \<Rightarrow> collaborators \<Rightarrow> nat \<Rightarrow> run_state \<Rightarrow> phase \<times> run_state" where
  "job_start this env nBlock s =
     (let b_from = block_from this nBlock;
          b_to = block_to this nBlock
      in case blockID (isRunningOnWeb env) (blockIDPrefix this) nBlock of
           Inl e \<Rightarrow> catch_error InBlockID e s
         | Inr block_id \<Rightarrow>
             (AwaitRead (readBlock env (the_file this) b_from b_to),
              s\<lparr>blockIDList := blockIDList s @ [block_id],
                trace := trace s @ [Call_readBlock b_from b_to]\<rparr>))"

text \<open>
  The constant \<open>blockID\<close> of a job that got past its computation: the later segments of
  the job read it.
\<close>

definition the_blockID :: "upload \<Rightarrow> collaborators \<Rightarrow> nat \<Rightarrow> string" where
  "the_blockID this env nBlock =
     (case blockID (isRunningOnWeb env) (blockIDPrefix this) nBlock of
        Inr block_id \<Rightarrow> block_id
      | Inl e \<Rightarrow> [])"

text \<open>The template string \<open>bytes=${from}-${to - 1}\<close>.\<close>

definition range_string :: "upload \<Rightarrow> nat \<Rightarrow> string" where
  "range_string this nBlock =
     ''bytes='' @ Number_toString (block_from this nBlock) @ ''-''
       @ Number_toString (block_to this nBlock - 1)"

text \<open>From the result of the read to \<open>await BlobStorage.putBlock\<close>.\<close>

definition after_read ::
  "upload \<Rightarrow> collaborators \<Rightarrow> encryption_key option \<Rightarrow> nat \<Rightarrow> error + bytes
     \<Rightarrow> run_state \<Rightarrow> phase \<times> run_state" where
  "after_read this env dataEncryptionKey nBlock r s =
     (case r of
        Inl e \<Rightarrow> catch_error InRead e s
      | Inr data \<Rightarrow>
          (let block_id = the_blockID this env nBlock;
               s = s\<lparr>artifacts := (artifacts s)
                      \<lparr>range_of := arr_set (range_of (artifacts s)) nBlock
                                     (range_string this nBlock)\<rparr>\<rparr>
           in case dataEncryptionKey of
                None \<Rightarrow>
                  (AwaitPut (putBlock env (url this) data block_id),
                   s\<lparr>trace := trace s @ [Call_putBlock (url this) data block_id]\<rparr>)
              | Some k \<Rightarrow>
                  (let iv_bytes = randomBytes env nBlock 12
                   in case encryptWithKeyUsingArtefacts env k data AES_GCM iv_bytes of
                        Inl e \<Rightarrow> catch_error InEncrypt e s
                      | Inr (encrypted, tag) \<Rightarrow>
                          (AwaitPut (putBlock env (url this) encrypted block_id),
                           s\<lparr>artifacts := (artifacts s)
                               \<lparr>iv := arr_set (iv (artifacts s)) nBlock iv_bytes,
                                at_of := arr_set (at_of (artifacts s)) nBlock tag\<rparr>,
                             trace := trace s
                               @ [Call_putBlock (url this) encrypted block_id]\<rparr>))))"

text \<open>
  The end of the job: \<open>onProgress\<close>, then, if the counter is zero, \<open>onSuccess({ artifacts })\<close>
  and \<open>resolve()\<close>.
\<close>

definition report_and_return :: "upload \<Rightarrow> nat \<Rightarrow> run_state \<Rightarrow> phase \<times> run_state" where
  "report_and_return this nBlock s =
     (let s = s\<lparr>trace := trace s
                  @ [OnProgress (nBlock + 1) (totalBlocks this) (file_name_of (the_file this))]\<rparr>
      in if this_totalRemainingBytes s = 0
         then (Returned, s\<lparr>trace := trace s @ [OnSuccess (artifacts s)],
                           promise := resolve None (promise s)\<rparr>)
         else (Returned, s))"

text \<open>From the result of \<open>putBlock\<close>: the counter, then \<open>await commit()\<close> or the end.\<close>

definition after_put ::
  "upload \<Rightarrow> collaborators \<Rightarrow> nat \<Rightarrow> error + unit \<Rightarrow> run_state \<Rightarrow> phase \<times> run_state" where
  "after_put this env nBlock r s =
     (case r of
        Inl e \<Rightarrow> catch_error InPut e s
      | Inr _ \<Rightarrow>
          (let s = s\<lparr>this_totalRemainingBytes := this_totalRemainingBytes s - blockSize this\<rparr>;
               s = (if this_totalRemainingBytes s < 0
                    then s\<lparr>this_totalRemainingBytes := 0\<rparr> else s)
           in if this_totalRemainingBytes s = 0
              then (AwaitCommit (putBlockList env (url this) (blockIDList s) (fileType this)),
                    s\<lparr>trace := trace s
                        @ [Call_putBlockList (url this) (blockIDList s) (fileType this)]\<rparr>)
              else report_and_return this nBlock s))"

text \<open>From the result of \<open>commit()\<close> to the end of the job.\<close>

definition after_commit ::
  "upload \<Rightarrow> nat \<Rightarrow> error + unit \<Rightarrow> run_state \<Rightarrow> phase \<times> run_state" where
  "after_commit this nBlock r s =
     (case r of
        Inl e \<Rightarrow> catch_error InCommit e s
      | Inr _ \<Rightarrow> report_and_return this nBlock s)"

fun ended :: "phase \<Rightarrow> bool" where
  "ended Returned = True"
| "ended (Caught site) = True"
| "ended p = False"

text \<open>
  Modelled from the spec: the bounded executor \<open>ThreadPool\<close>, whose source is not part of
  the files at hand, at the end of one of its tasks: the task queued first takes the
  slot, and if there is none the slot is free. A task that fails cancels nothing. The
  job that takes the slot runs its first segment at once; should that job end there (its
  identifier cannot be computed), the next one in the queue follows.
\<close>

fun pool_dispatch :: "upload \<Rightarrow> collaborators \<Rightarrow> nat list \<Rightarrow> run_state \<Rightarrow> run_state" where
  "pool_dispatch this env [] s = s\<lparr>running := running s - 1\<rparr>"
| "pool_dispatch this env (m # q) s =
     (let ps = job_start this env m (s\<lparr>queue := q\<rparr>);
          s' = (snd ps)\<lparr>phases := (phases (snd ps))[m := fst ps]\<rparr>
      in if ended (fst ps) then pool_dispatch this env q s' else s')"

text \<open>Modelled from the spec: the bounded executor, told that one of its tasks has ended.\<close>

definition pool_task_ended :: "upload \<Rightarrow> collaborators \<Rightarrow> run_state \<Rightarrow> run_state" where
  "pool_task_ended this env s = pool_dispatch this env (queue s) s"

text \<open>
  A segment is over: the job takes its new position and, if its body has ended, the pool
  is told.
\<close>

definition after_segment ::
  "upload \<Rightarrow> collaborators \<Rightarrow> nat \<Rightarrow> phase \<times> run_state \<Rightarrow> run_state" where
  "after_segment this env nBlock ps =
     (let s = (snd ps)\<lparr>phases := (phases (snd ps))[nBlock := fst ps]\<rparr>
      in if ended (fst ps) then pool_task_ended this env s else s)"

text \<open>
  Modelled from the spec: \<open>run\<close> of the bounded executor starts the task at once while
  fewer than \<open>capacity\<close> tasks execute and queues it otherwise. A job that ends within
  its first segment gives its slot back at once; it has called \<open>onError\<close> and
  \<open>reject\<close> by then and calls nothing later, so the calls of an upload and their
  order do not depend on when exactly the slot is given back.
\<close>

definition pool_run :: "upload \<Rightarrow> collaborators \<Rightarrow> nat \<Rightarrow> run_state \<Rightarrow> run_state" where
  "pool_run this env nBlock s =
     (if int (running s) < simultaneousUploads this
      then after_segment this env nBlock
             (job_start this env nBlock (s\<lparr>running := Suc (running s)\<rparr>))
      else s\<lparr>queue := queue s @ [nBlock]\<rparr>)"

text \<open>
  One step of the event loop: the call job \<open>nBlock\<close> awaits settles, and the job runs to
  its next \<open>await\<close> or to its end. A job that awaits nothing is not touched.
\<close>

definition resume ::
  "upload \<Rightarrow> collaborators \<Rightarrow> encryption_key option \<Rightarrow> nat \<Rightarrow> run_state \<Rightarrow> run_state" where
  "resume this env dataEncryptionKey nBlock s =
     (if nBlock < length (phases s)
      then (case phases s ! nBlock of
              AwaitRead r \<Rightarrow>
                after_segment this env nBlock (after_read this env dataEncryptionKey nBlock r s)
            | AwaitPut r \<Rightarrow> after_segment this env nBlock (after_put this env nBlock r s)
            | AwaitCommit r \<Rightarrow> after_segment this env nBlock (after_commit this nBlock r s)
            | _ \<Rightarrow> s)
      else s)"

definition initial_state :: "upload \<Rightarrow> nat \<Rightarrow> run_state" where
  "initial_state this n =
     \<lparr>this_totalRemainingBytes = totalRemainingBytes this,
      blockIDList = [],
      artifacts = \<lparr>iv = [], ad = ''none'', at_of = [], range_of = [],
                   encryption_stratergy = AES_GCM\<rparr>,
      promise = Pending,
      phases = replicate n NotStarted,
      queue = [], running = 0, trace = []\<rparr>"

text \<open>
  The synchronous part of \<open>start\<close>: the loop \<open>for (nBlock = 0; nBlock < totalBlocks; ...)\<close>
  that hands every job to the pool. It runs no iteration when \<open>totalBlocks\<close> is \<open>NaN\<close>
  or not positive, and never ends (\<open>None\<close>) when it is \<open>Infinity\<close>.
\<close>

definition jobs_of :: "jsnum \<Rightarrow> nat option" where
  "jobs_of t = (case t of Fin k \<Rightarrow> Some (nat k) | NaN \<Rightarrow> Some 0 | NegInf \<Rightarrow> Some 0
                | PosInf \<Rightarrow> None)"

definition start :: "upload \<Rightarrow> collaborators \<Rightarrow> run_state option" where
  "start this env =
     (case jobs_of (totalBlocks this) of
        None \<Rightarrow> None
      | Some n \<Rightarrow> Some (fold (pool_run this env) [0..<n] (initial_state this n)))"

text \<open>
  What follows \<open>start\<close>: the awaited calls settle in the order the schedule names their
  jobs.
\<close>

definition run ::
  "upload \<Rightarrow> collaborators \<Rightarrow> encryption_key option \<Rightarrow> nat list \<Rightarrow> run_state \<Rightarrow> run_state" where
  "run this env dataEncryptionKey schedule s = fold (resume this env dataEncryptionKey) schedule s"

section \<open>Auxiliary notions for the statements\<close>

text \<open>The ceiling of a quotient of integers, as \<open>Math.ceil(a / b)\<close> computes it for \<open>b \<noteq> 0\<close>.\<close>

definition ceil_div :: "int \<Rightarrow> int \<Rightarrow> int" where
  "ceil_div a b = \<lceil>(of_int a :: rat) / of_int b\<rceil>"

text \<open>
  The padding the specification words describe (a zero-padded five-digit index), kept
  apart from \<open>padStart\<close>, which is what the job calls.
\<close>

definition spec_zero_padded_index :: "nat \<Rightarrow> string" where
  "spec_zero_padded_index n = replicate (5 - length (decimal n)) CHR ''0'' @ decimal n"

text \<open>
  The bytes \<open>base64\<close> encodes for a prefix: its code units on the web, its UTF-8
  encoding elsewhere.
\<close>

definition prefix_bytes :: "bool \<Rightarrow> jsstring \<Rightarrow> string" where
  "prefix_bytes web prefix = (if web then map char_of prefix else utf8 prefix)"

text \<open>
  The identifier of the older variant of the class:
  \<open>btoa(`chunk${padStart(nBlock, 5)}`)\<close>.
\<close>

definition blockID_chunk :: "nat \<Rightarrow> error + string" where
  "blockID_chunk nBlock = btoa (code_units ''chunk'' @ code_units (padStart (decimal nBlock) 5))"

text \<open>A browser with a ten-byte file, for the concrete runs below.\<close>

definition example_platform :: platform where
  "example_platform =
     \<lparr>File_is_function = True, BLOCK_MAX_SIZE = 4194304,
      getSize = (\<lambda>v. case v of JS_file f \<Rightarrow> file_size f | _ \<Rightarrow> 0),
      getType = (\<lambda>v. case v of JS_file f \<Rightarrow> file_type f | _ \<Rightarrow> [])\<rparr>"

definition example_file :: "int \<Rightarrow> jsval" where
  "example_file n = JS_file \<lparr>file_name = ''a.bin'', file_size = n, file_type = ''text/plain''\<rparr>"

definition example_options :: "int \<Rightarrow> options" where
  "example_options bs =
     \<lparr>opt_blockIDPrefix = None, opt_blockSize = JS_number bs,
      opt_simultaneousUploads = JS_number 2\<rparr>"

definition example_upload :: "int \<Rightarrow> int \<Rightarrow> int \<Rightarrow> jsnum \<Rightarrow> upload" where
  "example_upload n bs remaining_bytes blocks =
     \<lparr>url = ''u'', the_file = example_file n, blockSize = bs, simultaneousUploads = 2,
      blockIDPrefix = code_units ''block'', fileSize = n, fileType = ''text/plain'',
      currentFilePointer = 0, totalRemainingBytes = remaining_bytes, totalBlocks = blocks\<rparr>"

section \<open>Observations on positions and traces\<close>

text \<open>
  Positions of a job, as the statements need them: it has taken its block off the counter
  (\<open>passed\<close>), it is the job that called the commit (\<open>committing\<close>), it ended in the
  \<open>catch\<close> block (\<open>caught\<close>).
\<close>

fun passed :: "phase \<Rightarrow> bool" where
  "passed (AwaitCommit r) = True"
| "passed Returned = True"
| "passed (Caught InCommit) = True"
| "passed p = False"

fun committing :: "phase \<Rightarrow> bool" where
  "committing (AwaitCommit r) = True"
| "committing (Caught InCommit) = True"
| "committing p = False"

fun caught :: "phase \<Rightarrow> bool" where
  "caught (Caught site) = True"
| "caught p = False"

text \<open>
  The kinds of events, the number of commits in a trace, and the arguments the two
  callbacks \<open>onError\<close> and \<open>onSuccess\<close> were called with, in order.
\<close>

fun is_commit :: "event \<Rightarrow> bool" where
  "is_commit (Call_putBlockList u ids t) = True"
| "is_commit ev = False"

fun is_success :: "event \<Rightarrow> bool" where
  "is_success (OnSuccess a) = True"
| "is_success ev = False"

fun is_error :: "event \<Rightarrow> bool" where
  "is_error (OnError e) = True"
| "is_error ev = False"

fun is_read :: "event \<Rightarrow> bool" where
  "is_read (Call_readBlock f t) = True"
| "is_read ev = False"

definition commits :: "event list \<Rightarrow> nat" where
  "commits tr = length (filter is_commit tr)"

fun errors :: "event list \<Rightarrow> error list" where
  "errors [] = []"
| "errors (OnError e # tr) = e # errors tr"
| "errors (ev # tr) = errors tr"

fun successes :: "event list \<Rightarrow> artifacts list" where
  "successes [] = []"
| "successes (OnSuccess a # tr) = a # successes tr"
| "successes (ev # tr) = successes tr"

text \<open>
  The state of the promise a trace determines: rejected with the first error, else
  resolved (with \<open>undefined\<close>) once \<open>onSuccess\<close> was called, else pending.
\<close>

fun expected_promise :: "error list \<Rightarrow> artifacts list \<Rightarrow> promise" where
  "expected_promise (e # es) as = Rejected e"
| "expected_promise [] [] = Pending"
| "expected_promise [] (a # as) = Fulfilled None"

text \<open>
  No call of the commit and no call of \<open>onSuccess\<close> comes later in the trace than a
  call of \<open>onError\<close>.
\<close>

fun no_commit_after_error :: "event list \<Rightarrow> bool" where
  "no_commit_after_error [] = True"
| "no_commit_after_error (ev # tr) =
     ((if is_error ev then filter (\<lambda>x. is_commit x \<or> is_success x) tr = [] else True)
      \<and> no_commit_after_error tr)"

section \<open>Invariants of a running upload\<close>

text \<open>
  What \<open>analizeFile\<close> establishes for a positive file size and block size, with \<open>N\<close>
  the number of blocks.
\<close>

definition well_planned :: "upload \<Rightarrow> nat \<Rightarrow> bool" where
  "well_planned this N \<longleftrightarrow>
     0 < N \<and> 0 < blockSize this \<and> (int N - 1) * blockSize this < fileSize this
     \<and> fileSize this \<le> int N * blockSize this"

text \<open>
  The counter, the commit and the promise, in terms of the positions \<open>xs\<close> of the jobs:
  the counter is what is left after the passed jobs, the commit was called iff all jobs
  have passed, a commit is either awaited, failed or followed by \<open>onSuccess\<close>, every
  caught job called \<open>onError\<close> once, the promise is the one the trace determines, and
  \<open>onSuccess\<close> (called with the final artifacts) leaves every job returned.
\<close>

definition counting_inv ::
  "upload \<Rightarrow> nat \<Rightarrow> phase list \<Rightarrow> int \<Rightarrow> event list \<Rightarrow> promise \<Rightarrow> artifacts \<Rightarrow> bool" where
  "counting_inv this N xs rem tr pr a \<longleftrightarrow>
     length xs = N
     \<and> rem = max 0 (fileSize this - int (length (filter passed xs)) * blockSize this)
     \<and> commits tr = (if length (filter passed xs) = N then 1 else 0)
     \<and> length (filter committing xs) + length (successes tr) = commits tr
     \<and> length (errors tr) = length (filter caught xs)
     \<and> pr = expected_promise (errors tr) (successes tr)
     \<and> (successes tr = [] \<or> successes tr = [a] \<and> filter (\<lambda>p. p \<noteq> Returned) xs = [])
     \<and> no_commit_after_error tr"

text \<open>
  The read of a job has succeeded; its encryption (if any) has succeeded too.
\<close>

fun read_done :: "phase \<Rightarrow> bool" where
  "read_done NotStarted = False"
| "read_done (Caught InBlockID) = False"
| "read_done (AwaitRead r) = False"
| "read_done (Caught InRead) = False"
| "read_done p = True"

fun encrypt_done :: "phase \<Rightarrow> bool" where
  "encrypt_done (Caught InEncrypt) = False"
| "encrypt_done p = read_done p"

text \<open>
  The entries of the artifacts at the index of a job in position \<open>p\<close>: the range is
  there iff the read succeeded, the initialisation vector and the tag iff moreover a key
  was given and the encryption succeeded.
\<close>

definition art_at ::
  "upload \<Rightarrow> collaborators \<Rightarrow> encryption_key option \<Rightarrow> artifacts \<Rightarrow> phase \<Rightarrow> nat \<Rightarrow> bool" where
  "art_at this env k a p n \<longleftrightarrow>
     arr_get (range_of a) n = (if read_done p then Some (range_string this n) else None)
     \<and> arr_get (iv a) n
         = (if k \<noteq> None \<and> encrypt_done p then Some (randomBytes env n 12) else None)
     \<and> (arr_get (at_of a) n \<noteq> None) = (k \<noteq> None \<and> encrypt_done p)"

definition artifacts_inv ::
  "upload \<Rightarrow> collaborators \<Rightarrow> encryption_key option \<Rightarrow> nat \<Rightarrow> phase list \<Rightarrow> artifacts \<Rightarrow> bool" where
  "artifacts_inv this env k N xs a \<longleftrightarrow>
     (\<forall>n<N. art_at this env k a (xs ! n) n)
     \<and> (k = None \<longrightarrow> iv a = [] \<and> at_of a = [])
     \<and> ad a = ''none'' \<and> encryption_stratergy a = AES_GCM"

text \<open>
  The commit of an upload of \<open>N\<close> blocks: the identifiers in the order of the blocks.
\<close>

definition expected_commit :: "upload \<Rightarrow> collaborators \<Rightarrow> nat \<Rightarrow> event" where
  "expected_commit this env N =
     Call_putBlockList (url this) (map (the_blockID this env) [0..<N]) (fileType this)"

text \<open>
  The identifier of every block can be computed unless the upload runs on the web with a
  prefix that holds a code unit above \<open>U+00FF\<close>; then \<open>base64\<close> throws for every block.
\<close>

definition identifier_throws :: "upload \<Rightarrow> collaborators \<Rightarrow> bool" where
  "identifier_throws this env \<longleftrightarrow>
     isRunningOnWeb env \<and> \<not> list_all (\<lambda>c. c < 256) (blockIDPrefix this)"

text \<open>
  What the first segment of job \<open>m\<close> and the taking of its position amount to when the
  identifier is computed.
\<close>

definition job_begun :: "upload \<Rightarrow> collaborators \<Rightarrow> nat \<Rightarrow> run_state \<Rightarrow> run_state" where
  "job_begun this env m s =
     s\<lparr>blockIDList := blockIDList s @ [the_blockID this env m],
       trace := trace s @ [Call_readBlock (block_from this m) (block_to this m)],
       phases := (phases s)[m := AwaitRead
         (readBlock env (the_file this) (block_from this m) (block_to this m))]\<rparr>"

text \<open>
  The pool and \<open>blockIDList\<close> after \<open>j\<close> jobs were submitted, when the identifiers
  can be computed: the jobs begun are an
  initial segment of the indices, the list holds their identifiers in that order, the
  others wait in the queue in order, a non-empty queue means a full pool, and a read was
  called for every identifier in the list.
\<close>

definition pool_inv :: "upload \<Rightarrow> collaborators \<Rightarrow> nat \<Rightarrow> nat \<Rightarrow> run_state \<Rightarrow> bool" where
  "pool_inv this env N j s \<longleftrightarrow>
     length (phases s) = N \<and> j \<le> N \<and> length (blockIDList s) \<le> j
     \<and> queue s = [length (blockIDList s)..<j]
     \<and> blockIDList s = map (the_blockID this env) [0..<length (blockIDList s)]
     \<and> (\<forall>n<N. (phases s ! n = NotStarted) = (length (blockIDList s) \<le> n))
     \<and> (queue s \<noteq> [] \<longrightarrow> simultaneousUploads this \<le> int (running s))
     \<and> length (filter is_read (trace s)) = length (blockIDList s)"

text \<open>
  What holds of every upload whose identifiers can be computed, whatever its sizes: the
  pool invariant and the artifacts.
\<close>

definition frame_inv ::
  "upload \<Rightarrow> collaborators \<Rightarrow> encryption_key option \<Rightarrow> nat \<Rightarrow> nat \<Rightarrow> run_state \<Rightarrow> bool" where
  "frame_inv this env k N j s \<longleftrightarrow>
     pool_inv this env N j s \<and> artifacts_inv this env k N (phases s) (artifacts s)"

text \<open>
  What a segment of job \<open>n\<close> guarantees for it: the job does not go back to the start, the
  segment leaves the pool, the list and the positions alone and calls no read, and the
  artifacts fit the new position of the job.
\<close>

definition seg_frame ::
  "upload \<Rightarrow> collaborators \<Rightarrow> encryption_key option \<Rightarrow> nat \<Rightarrow> nat \<Rightarrow> run_state
     \<Rightarrow> phase \<times> run_state \<Rightarrow> bool" where
  "seg_frame this env k N n s ps \<longleftrightarrow>
     fst ps \<noteq> NotStarted
     \<and> blockIDList (snd ps) = blockIDList s \<and> queue (snd ps) = queue s
     \<and> running (snd ps) = running s \<and> phases (snd ps) = phases s
     \<and> filter is_read (trace (snd ps)) = filter is_read (trace s)
     \<and> artifacts_inv this env k N ((phases s)[n := fst ps]) (artifacts (snd ps))"

text \<open>
  What holds in addition of an upload with a positive file size and block size: the
  counting invariant, and every commit in the trace is the expected one.
\<close>

definition core_inv :: "upload \<Rightarrow> collaborators \<Rightarrow> nat \<Rightarrow> run_state \<Rightarrow> bool" where
  "core_inv this env N s \<longleftrightarrow>
     counting_inv this N (phases s) (this_totalRemainingBytes s) (trace s) (promise s)
       (artifacts s)
     \<and> set (filter is_commit (trace s)) \<subseteq> {expected_commit this env N}"

definition seg_ok ::
  "upload \<Rightarrow> collaborators \<Rightarrow> nat \<Rightarrow> nat \<Rightarrow> run_state \<Rightarrow> phase \<times> run_state \<Rightarrow> bool" where
  "seg_ok this env N n s ps \<longleftrightarrow>
     core_inv this env N ((snd ps)\<lparr>phases := (phases s)[n := fst ps]\<rparr>)"

definition upload_inv ::
  "upload \<Rightarrow> collaborators \<Rightarrow> encryption_key option \<Rightarrow> nat \<Rightarrow> nat \<Rightarrow> run_state \<Rightarrow> bool" where
  "upload_inv this env k N j s \<longleftrightarrow> frame_inv this env k N j s \<and> core_inv this env N s"

section \<open>Failures and what causes them\<close>

text \<open>
  The failure the collaborators hold in store for block \<open>n\<close>, before its job gets to the
  counter: the first of the computation of the identifier, the read, the encryption (if a
  key is given) and the transfer that fails, with its error; \<open>None\<close> if none of them
  fails.
\<close>

definition transfer_failure ::
  "upload \<Rightarrow> collaborators \<Rightarrow> bytes \<Rightarrow> string \<Rightarrow> (failure_site \<times> error) option" where
  "transfer_failure this env data block_id =
     (case putBlock env (url this) data block_id of
        Inl e \<Rightarrow> Some (InPut, e)
      | Inr u \<Rightarrow> None)"

definition block_failure ::
  "upload \<Rightarrow> collaborators \<Rightarrow> encryption_key option \<Rightarrow> nat \<Rightarrow> (failure_site \<times> error) option" where
  "block_failure this env k n =
     (case blockID (isRunningOnWeb env) (blockIDPrefix this) n of
        Inl e \<Rightarrow> Some (InBlockID, e)
      | Inr block_id \<Rightarrow>
          (case readBlock env (the_file this) (block_from this n) (block_to this n) of
             Inl e \<Rightarrow> Some (InRead, e)
           | Inr data \<Rightarrow>
               (case k of
                  None \<Rightarrow> transfer_failure this env data block_id
                | Some key \<Rightarrow>
                    (case encryptWithKeyUsingArtefacts env key data AES_GCM (randomBytes env n 12) of
                       Inl e \<Rightarrow> Some (InEncrypt, e)
                     | Inr ct \<Rightarrow> transfer_failure this env (fst ct) block_id))))"

text \<open>
  The failures the next step of a job in position \<open>p\<close> can meet: one resumed after its
  read fails in the read or in the encryption, one resumed after its transfer fails in
  the transfer.
\<close>

fun fails_next :: "phase \<Rightarrow> failure_site \<Rightarrow> bool" where
  "fails_next (AwaitRead r) site = (site = InRead \<or> site = InEncrypt)"
| "fails_next (AwaitPut r) site = (site = InPut)"
| "fails_next p site = False"

text \<open>
  The position \<open>p\<close> of job \<open>n\<close> against the failure in store for its block: the result a
  job awaits is the one its collaborator gave, a job past its transfer had no failure, and
  a job caught before the counter was caught where its failure is, its error passed to
  \<open>onError\<close>.
\<close>

definition fail_at ::
  "upload \<Rightarrow> collaborators \<Rightarrow> encryption_key option \<Rightarrow> event list \<Rightarrow> phase \<Rightarrow> nat \<Rightarrow> bool" where
  "fail_at this env k tr p n \<longleftrightarrow>
     (case p of
        NotStarted \<Rightarrow> True
      | AwaitRead r \<Rightarrow>
          r = readBlock env (the_file this) (block_from this n) (block_to this n)
      | AwaitPut r \<Rightarrow>
          block_failure this env k n = (case r of Inl e \<Rightarrow> Some (InPut, e) | Inr u \<Rightarrow> None)
      | AwaitCommit r \<Rightarrow> block_failure this env k n = None
      | Returned \<Rightarrow> block_failure this env k n = None
      | Caught site \<Rightarrow>
          (if site = InCommit then block_failure this env k n = None
           else (\<exists>e. block_failure this env k n = Some (site, e) \<and> e \<in> set (errors tr))))"

definition failure_inv ::
  "upload \<Rightarrow> collaborators \<Rightarrow> encryption_key option \<Rightarrow> nat \<Rightarrow> phase list \<Rightarrow> event list \<Rightarrow> bool" where
  "failure_inv this env k N xs tr \<longleftrightarrow>
     length xs = N
     \<and> (\<forall>n<N. fail_at this env k tr (xs ! n) n)
     \<and> (\<forall>e\<in>set (errors tr). \<exists>n<N. \<exists>site. xs ! n = Caught site
            \<and> (site = InCommit \<or> block_failure this env k n = Some (site, e)))"

section \<open>An upload whose identifiers cannot be computed\<close>

text \<open>
  When \<open>base64\<close> throws, every job that begins ends at once in its \<open>catch\<close> block:
  nothing is pushed, read, transferred or committed, and \<open>onError\<close> is called once for
  each such job. \<open>failed_state\<close> is the state after \<open>j\<close> jobs were submitted to a pool
  that runs at least one task, \<open>queued_state\<close> the state after \<open>j\<close> jobs were submitted
  to a pool that runs none.
\<close>

definition stuck :: "upload \<Rightarrow> nat \<Rightarrow> run_state \<Rightarrow> bool" where
  "stuck this N s \<longleftrightarrow>
     length (phases s) = N
     \<and> (\<forall>p\<in>set (phases s). p = NotStarted \<or> p = Caught InBlockID)
     \<and> blockIDList s = [] \<and> artifacts s = artifacts (initial_state this N)
     \<and> this_totalRemainingBytes s = totalRemainingBytes this
     \<and> trace s = replicate (length (filter caught (phases s)))
                    (OnError (Error ''InvalidCharacterError''))
     \<and> promise s = expected_promise (errors (trace s)) []"

definition failed_state :: "upload \<Rightarrow> nat \<Rightarrow> nat \<Rightarrow> run_state" where
  "failed_state this N j =
     (initial_state this N)
       \<lparr>phases := replicate j (Caught InBlockID) @ replicate (N - j) NotStarted,
        trace := replicate j (OnError (Error ''InvalidCharacterError'')),
        promise := (if j = 0 then Pending else Rejected (Error ''InvalidCharacterError''))\<rparr>"

definition queued_state :: "upload \<Rightarrow> nat \<Rightarrow> nat \<Rightarrow> run_state" where
  "queued_state this N j = (initial_state this N)\<lparr>queue := [0..<j]\<rparr>"

section \<open>Concrete collaborators\<close>

text \<open>
  Collaborators for the concrete runs, on the web: all calls succeed; or the transfer of
  block 1 fails; or moreover the read of block 0 fails; or every encryption fails.
  \<open>example_started\<close> is the state \<open>start\<close> leaves for the ten-byte file in blocks of
  four bytes, with two simultaneous uploads; \<open>example_wide_upload\<close> is that upload with
  the one-character prefix \<open>U+0100\<close>.
\<close>

definition example_env :: collaborators where
  "example_env =
     \<lparr>isRunningOnWeb = True,
      readBlock = (\<lambda>f a b. Inr ''data''),
      randomBytes = (\<lambda>n len. replicate len CHR ''r''),
      encryptWithKeyUsingArtefacts = (\<lambda>key d strategy i. Inr (d, ''tag'')),
      putBlock = (\<lambda>u d b. Inr ()),
      putBlockList = (\<lambda>u ids t. Inr ())\<rparr>"

definition example_failing_env :: collaborators where
  "example_failing_env =
     example_env\<lparr>putBlock :=
       (\<lambda>u d b. if b = ''YmxvY2sgICAgMQ=='' then Inl (Error ''transfer failed'') else Inr ())\<rparr>"

definition example_read_failing_env :: collaborators where
  "example_read_failing_env =
     example_failing_env\<lparr>readBlock :=
       (\<lambda>f a b. if a = 0 then Inl (Error ''read failed'') else Inr ''data'')\<rparr>"

definition example_encrypt_failing_env :: collaborators where
  "example_encrypt_failing_env =
     example_env\<lparr>encryptWithKeyUsingArtefacts :=
       (\<lambda>key d strategy i. Inl (Error ''encryption failed''))\<rparr>"

definition example_wide_options :: options where
  "example_wide_options = (example_options 4)\<lparr>opt_blockIDPrefix := Some [256]\<rparr>"

definition example_wide_upload :: upload where
  "example_wide_upload = (example_upload 10 4 10 (Fin 3))\<lparr>blockIDPrefix := [256]\<rparr>"

definition example_started :: "collaborators \<Rightarrow> run_state" where
  "example_started env =
     fold (pool_run (example_upload 10 4 10 (Fin 3)) env) [0..<3]
       (initial_state (example_upload 10 4 10 (Fin 3)) 3)"

definition example_wide_started :: "collaborators \<Rightarrow> run_state" where
  "example_wide_started env =
     fold (pool_run example_wide_upload env) [0..<3] (initial_state example_wide_upload 3)"

text \<open>A run of that upload: the given schedule after \<open>start\<close>.\<close>

definition example_run :: "collaborators \<Rightarrow> encryption_key option \<Rightarrow> nat list \<Rightarrow> run_state" where
  "example_run env k schedule =
     run (example_upload 10 4 10 (Fin 3)) env k schedule (example_started env)"

section \<open>Numbers and strings\<close>

text \<open>
  The decimal notation, the padding and base64 are injective, so a block index can be
  read back from its identifier.
\<close>

lemma digit_chars_inj: "a < 10 \<Longrightarrow> b < 10 \<Longrightarrow> digit_chars ! a = digit_chars ! b \<Longrightarrow> a = b"
proof -
  assume a: "a < 10" and b: "b < 10" and e: "digit_chars ! a = digit_chars ! b"
  have d: "distinct digit_chars" by (simp add: digit_chars_def)
  have l: "length digit_chars = 10" by (simp add: digit_chars_def)
  from d a b e l show "a = b" by (simp add: nth_eq_iff_index_eq)
qed

lemma digit_chars_not_space: "a < 10 \<Longrightarrow> digit_chars ! a \<noteq> CHR '' ''"
proof -
  assume a: "a < 10"
  have "CHR '' '' \<notin> set digit_chars" by (simp add: digit_chars_def)
  moreover have "length digit_chars = 10" by (simp add: digit_chars_def)
  then have "digit_chars ! a \<in> set digit_chars" using a by (intro nth_mem) simp
  ultimately show ?thesis by metis
qed

lemma decimal_not_Nil: "decimal n \<noteq> []"
  by (subst decimal.simps) simp

lemma decimal_hd_not_space: "hd (decimal n) \<noteq> CHR '' ''"
proof (induction n rule: decimal.induct)
  case (1 n)
  show ?case
  proof (cases "n < 10")
    case True
    then show ?thesis by (subst decimal.simps) (simp add: digit_chars_not_space)
  next
    case False
    then have "hd (decimal n) = hd (decimal (n div 10))"
      by (subst decimal.simps) (simp add: decimal_not_Nil)
    with 1 False show ?thesis by simp
  qed
qed

lemma decimal_length_one: "length (decimal n) = Suc 0 \<longleftrightarrow> n < 10"
proof (cases "n < 10")
  case True
  then show ?thesis by (subst decimal.simps) simp
next
  case False
  have "decimal (n div 10) \<noteq> []" by (rule decimal_not_Nil)
  then have "0 < length (decimal (n div 10))" by simp
  with False show ?thesis by (subst decimal.simps) simp
qed

lemma decimal_inj: "decimal n = decimal m \<Longrightarrow> n = m"
proof (induction n arbitrary: m rule: decimal.induct)
  case (1 n)
  show ?case
  proof (cases "n < 10")
    case True
    with "1.prems" have "length (decimal m) = Suc 0"
      using decimal_length_one [of n] by simp
    then have m: "m < 10" by (simp add: decimal_length_one)
    from True m "1.prems" have "digit_chars ! n = digit_chars ! m"
      by (simp add: decimal.simps [of n] decimal.simps [of m])
    with True m show ?thesis by (rule digit_chars_inj)
  next
    case False
    with "1.prems" have "length (decimal m) \<noteq> Suc 0"
      using decimal_length_one [of n] by simp
    then have m: "\<not> m < 10" by (simp add: decimal_length_one)
    from False m "1.prems"
    have e: "decimal (n div 10) @ [digit_chars ! (n mod 10)]
           = decimal (m div 10) @ [digit_chars ! (m mod 10)]"
      by (simp add: decimal.simps [of n] decimal.simps [of m])
    then have "decimal (n div 10) = decimal (m div 10)" by simp
    with "1.IH" False have q: "n div 10 = m div 10" by simp
    from e have "digit_chars ! (n mod 10) = digit_chars ! (m mod 10)" by simp
    then have r: "n mod 10 = m mod 10" by (simp add: digit_chars_inj)
    from q r show ?thesis by (metis div_mult_mod_eq)
  qed
qed

lemma dropWhile_padStart:
  "dropWhile (\<lambda>c. c = CHR '' '') (padStart (decimal n) len) = decimal n"
proof -
  have "dropWhile (\<lambda>c. c = CHR '' '') (decimal n) = decimal n"
    using decimal_not_Nil [of n] decimal_hd_not_space [of n]
    by (cases "decimal n") simp_all
  then show ?thesis by (simp add: padStart_def dropWhile_append)
qed

lemma padStart_decimal_inj:
  "padStart (decimal n) len = padStart (decimal m) len \<Longrightarrow> n = m"
proof -
  assume "padStart (decimal n) len = padStart (decimal m) len"
  then have "dropWhile (\<lambda>c. c = CHR '' '') (padStart (decimal n) len)
           = dropWhile (\<lambda>c. c = CHR '' '') (padStart (decimal m) len)" by simp
  then have "decimal n = decimal m" by (simp only: dropWhile_padStart)
  then show "n = m" by (rule decimal_inj)
qed

lemma b64_inj: "i < 64 \<Longrightarrow> j < 64 \<Longrightarrow> b64 i = b64 j \<Longrightarrow> i = j"
proof -
  assume i: "i < 64" and j: "j < 64" and e: "b64 i = b64 j"
  have d: "distinct b64chars" by (simp add: b64chars_def)
  have l: "length b64chars = 64" by (simp add: b64chars_def)
  from d i j e l show "i = j" by (simp add: b64_def nth_eq_iff_index_eq)
qed

lemma b64_not_pad: "i < 64 \<Longrightarrow> b64 i \<noteq> CHR ''=''"
proof -
  assume i: "i < 64"
  have "CHR ''='' \<notin> set b64chars" by (simp add: b64chars_def)
  moreover have "length b64chars = 64" by (simp add: b64chars_def)
  then have "b64 i \<in> set b64chars" using i unfolding b64_def by (intro nth_mem) simp
  ultimately show ?thesis by metis
qed

lemma byte_less: "byte c < 256"
  by (simp add: byte_def)

lemma byte_inj: "byte a = byte b \<Longrightarrow> a = b"
  by (simp add: byte_def)

lemma sextet_bounds:
  "byte a div 4 < 64" "byte a mod 4 * 16 < 64" "byte a mod 4 * 16 + byte b div 16 < 64"
  "byte b mod 16 * 4 < 64" "byte b mod 16 * 4 + byte c div 64 < 64" "byte c mod 64 < 64"
  using byte_less [of a] byte_less [of b] byte_less [of c] by simp_all

lemma b64_eq_iff: "i < 64 \<Longrightarrow> j < 64 \<Longrightarrow> b64 i = b64 j \<longleftrightarrow> i = j"
  using b64_inj by blast

lemma split4: "(x::nat) div 4 = y div 4 \<Longrightarrow> x mod 4 = y mod 4 \<Longrightarrow> x = y"
  by (metis div_mult_mod_eq)

lemma split16: "(x::nat) div 16 = y div 16 \<Longrightarrow> x mod 16 = y mod 16 \<Longrightarrow> x = y"
  by (metis div_mult_mod_eq)

lemma split64: "(x::nat) div 64 = y div 64 \<Longrightarrow> x mod 64 = y mod 64 \<Longrightarrow> x = y"
  by (metis div_mult_mod_eq)

lemma mix16: "(m::nat) * 16 + p = m' * 16 + p' \<Longrightarrow> p < 16 \<Longrightarrow> p' < 16 \<Longrightarrow> m = m' \<and> p = p'"
proof -
  assume e: "m * 16 + p = m' * 16 + p'" and p: "p < 16" "p' < 16"
  from p have "(m * 16 + p) div 16 = m" "(m' * 16 + p') div 16 = m'" by simp_all
  with e have "m = m'" by simp
  with e show ?thesis by simp
qed

lemma mix4: "(m::nat) * 4 + q = m' * 4 + q' \<Longrightarrow> q < 4 \<Longrightarrow> q' < 4 \<Longrightarrow> m = m' \<and> q = q'"
proof -
  assume e: "m * 4 + q = m' * 4 + q'" and q: "q < 4" "q' < 4"
  from q have "(m * 4 + q) div 4 = m" "(m' * 4 + q') div 4 = m'" by simp_all
  with e have "m = m'" by simp
  with e show ?thesis by simp
qed

lemma base64_not_Nil: "base64_bytes xs = [] \<longleftrightarrow> xs = []"
  by (cases xs rule: base64_bytes.cases) simp_all

lemma first_byte_eq:
  assumes "byte a div 4 = byte a' div 4"
    and "byte a mod 4 * 16 + p = byte a' mod 4 * 16 + p'" and "p < 16" and "p' < 16"
  shows "a = a'" and "p = p'"
proof -
  from mix16 [OF assms(2-4)] have m: "byte a mod 4 = byte a' mod 4" and p: "p = p'" by simp_all
  from assms(1) m have "byte a = byte a'" by (rule split4)
  then show "a = a'" by (rule byte_inj)
  from p show "p = p'" .
qed

lemma second_byte_eq:
  assumes "byte b div 16 = byte b' div 16"
    and "byte b mod 16 * 4 + q = byte b' mod 16 * 4 + q'" and "q < 4" and "q' < 4"
  shows "b = b'" and "q = q'"
proof -
  from mix4 [OF assms(2-4)] have m: "byte b mod 16 = byte b' mod 16" and q: "q = q'" by simp_all
  from assms(1) m have "byte b = byte b'" by (rule split16)
  then show "b = b'" by (rule byte_inj)
  from q show "q = q'" .
qed

lemma third_byte_eq:
  assumes "byte c div 64 = byte c' div 64" and "byte c mod 64 = byte c' mod 64"
  shows "c = c'"
proof -
  from assms have "byte c = byte c'" by (rule split64)
  then show ?thesis by (rule byte_inj)
qed

lemma quad_eq:
  assumes "[b64 (byte a div 4), b64 (byte a mod 4 * 16 + byte b div 16),
            b64 (byte b mod 16 * 4 + byte c div 64), b64 (byte c mod 64)]
         = [b64 (byte a' div 4), b64 (byte a' mod 4 * 16 + byte b' div 16),
            b64 (byte b' mod 16 * 4 + byte c' div 64), b64 (byte c' mod 64)]"
  shows "a = a' \<and> b = b' \<and> c = c'"
proof -
  from assms have 1: "byte a div 4 = byte a' div 4"
    and 2: "byte a mod 4 * 16 + byte b div 16 = byte a' mod 4 * 16 + byte b' div 16"
    and 3: "byte b mod 16 * 4 + byte c div 64 = byte b' mod 16 * 4 + byte c' div 64"
    and 4: "byte c mod 64 = byte c' mod 64"
    by (simp_all add: b64_eq_iff sextet_bounds)
  have bb: "byte b div 16 < 16" "byte b' div 16 < 16"
    using byte_less [of b] byte_less [of b'] by simp_all
  have cc: "byte c div 64 < 4" "byte c' div 64 < 4"
    using byte_less [of c] byte_less [of c'] by simp_all
  from first_byte_eq [OF 1 2 bb] have a: "a = a'" and b1: "byte b div 16 = byte b' div 16" by simp_all
  from second_byte_eq [OF b1 3 cc] have b: "b = b'" and c1: "byte c div 64 = byte c' div 64" by simp_all
  from third_byte_eq [OF c1 4] have "c = c'" .
  with a b show ?thesis by simp
qed

lemma pair_eq:
  assumes "[b64 (byte a div 4), b64 (byte a mod 4 * 16 + byte b div 16), b64 (byte b mod 16 * 4)]
         = [b64 (byte a' div 4), b64 (byte a' mod 4 * 16 + byte b' div 16), b64 (byte b' mod 16 * 4)]"
  shows "a = a' \<and> b = b'"
proof -
  from assms have 1: "byte a div 4 = byte a' div 4"
    and 2: "byte a mod 4 * 16 + byte b div 16 = byte a' mod 4 * 16 + byte b' div 16"
    and 3: "byte b mod 16 * 4 = byte b' mod 16 * 4"
    by (simp_all add: b64_eq_iff sextet_bounds)
  have bb: "byte b div 16 < 16" "byte b' div 16 < 16"
    using byte_less [of b] byte_less [of b'] by simp_all
  from first_byte_eq [OF 1 2 bb] have a: "a = a'" and b1: "byte b div 16 = byte b' div 16" by simp_all
  from 3 have "byte b mod 16 * 4 + 0 = byte b' mod 16 * 4 + 0" by simp
  from second_byte_eq(1) [OF b1 this] have "b = b'" by simp
  with a show ?thesis by simp
qed

lemma single_eq:
  assumes "[b64 (byte a div 4), b64 (byte a mod 4 * 16)]
         = [b64 (byte a' div 4), b64 (byte a' mod 4 * 16)]"
  shows "a = a'"
proof -
  from assms have 1: "byte a div 4 = byte a' div 4"
    and 2: "byte a mod 4 * 16 = byte a' mod 4 * 16"
    by (simp_all add: b64_eq_iff sextet_bounds)
  from 2 have "byte a mod 4 * 16 + 0 = byte a' mod 4 * 16 + 0" by simp
  from first_byte_eq(1) [OF 1 this] show ?thesis by simp
qed

lemma base64_inj: "base64_bytes xs = base64_bytes ys \<Longrightarrow> xs = ys"
proof (induction xs arbitrary: ys rule: base64_bytes.induct)
  case 1
  then show ?case by (metis base64_not_Nil)
next
  case (2 a)
  show ?case
  proof (cases ys rule: base64_bytes.cases)
    case 1
    with "2.prems" show ?thesis by simp
  next
    case (2 a')
    with "2.prems" show ?thesis using single_eq [of a a'] by simp
  next
    case (3 a' b')
    with "2.prems" show ?thesis using b64_not_pad [OF sextet_bounds(4) [of b']] by simp
  next
    case (4 a' b' c' rest)
    with "2.prems" show ?thesis using b64_not_pad [OF sextet_bounds(5) [of b' c']] by simp
  qed
next
  case (3 a b)
  show ?case
  proof (cases ys rule: base64_bytes.cases)
    case 1
    with "3.prems" show ?thesis by simp
  next
    case (2 a')
    with "3.prems" show ?thesis using b64_not_pad [OF sextet_bounds(4) [of b]] by simp
  next
    case (3 a' b')
    with "3.prems" show ?thesis using pair_eq [of a b a' b'] by simp
  next
    case (4 a' b' c' rest)
    with "3.prems" show ?thesis using b64_not_pad [OF sextet_bounds(6) [of c']] by simp
  qed
next
  case (4 a b c rest)
  show ?case
  proof (cases ys rule: base64_bytes.cases)
    case 1
    with "4.prems" show ?thesis by simp
  next
    case (2 a')
    with "4.prems" show ?thesis using b64_not_pad [OF sextet_bounds(5) [of b c]] by simp
  next
    case (3 a' b')
    with "4.prems" show ?thesis using b64_not_pad [OF sextet_bounds(6) [of c]] by simp
  next
    case (4 a' b' c' rest')
    with "4.prems" have q: "[b64 (byte a div 4), b64 (byte a mod 4 * 16 + byte b div 16),
            b64 (byte b mod 16 * 4 + byte c div 64), b64 (byte c mod 64)]
         = [b64 (byte a' div 4), b64 (byte a' mod 4 * 16 + byte b' div 16),
            b64 (byte b' mod 16 * 4 + byte c' div 64), b64 (byte c' mod 64)]"
      and r: "base64_bytes rest = base64_bytes rest'" by simp_all
    from r have "rest = rest'" by (rule "4.IH")
    with quad_eq [OF q] 4 show ?thesis by simp
  qed
qed

text \<open>
  The index part of the text a job encodes is ASCII, so UTF-8 encodes it unit by unit
  and after the prefix, whatever the prefix ends with.
\<close>

lemma digit_chars_ascii: "a < 10 \<Longrightarrow> (of_char (digit_chars ! a) :: nat) < 128"
proof -
  assume a: "a < 10"
  have "\<forall>c\<in>set digit_chars. (of_char c :: nat) < 128" by (simp add: digit_chars_def)
  moreover have "length digit_chars = 10" by (simp add: digit_chars_def)
  then have "digit_chars ! a \<in> set digit_chars" using a by (intro nth_mem) simp
  ultimately show ?thesis by blast
qed

lemma decimal_ascii: "c \<in> set (decimal n) \<Longrightarrow> (of_char c :: nat) < 128"
proof (induction n rule: decimal.induct)
  case (1 n)
  show ?case
  proof (cases "n < 10")
    case True
    with "1.prems" show ?thesis by (simp add: decimal.simps [of n] digit_chars_ascii)
  next
    case False
    with "1.prems" have "c \<in> set (decimal (n div 10)) \<or> c = digit_chars ! (n mod 10)"
      by (auto simp: decimal.simps [of n])
    with "1.IH" False show ?thesis using digit_chars_ascii [of "n mod 10"] by auto
  qed
qed

lemma padded_ascii: "list_all (\<lambda>c. c < 128) (code_units (padStart (decimal n) len))"
  using decimal_ascii [of _ n] by (auto simp: code_units_def padStart_def list_all_iff)

lemma char_of_code_units: "map char_of (code_units str) = str"
  by (simp add: code_units_def comp_def)

lemma utf8_unit_ascii: "c < 128 \<Longrightarrow> utf8_unit c = [char_of c]"
  by (simp add: utf8_unit_def)

lemma utf8_ascii: "list_all (\<lambda>c. c < 128) str \<Longrightarrow> utf8 str = map char_of str"
proof (induction str rule: utf8.induct)
  case 1
  show ?case by simp
next
  case (2 c)
  then show ?case by (simp add: utf8_unit_ascii)
next
  case (3 c d cs)
  then show ?case by simp
qed

lemma utf8_append:
  "str' = [] \<or> \<not> low_surrogate (hd str') \<Longrightarrow> utf8 (str @ str') = utf8 str @ utf8 str'"
proof (induction str rule: utf8.induct)
  case 1
  show ?case by simp
next
  case (2 c)
  then show ?case by (cases str') (simp_all add: utf8_unit_ascii)
next
  case (3 c d cs)
  then show ?case by simp
qed

lemma utf8_append_ascii:
  assumes "list_all (\<lambda>c. c < 128) str'"
  shows "utf8 (str @ str') = utf8 str @ map char_of str'"
proof -
  have "str' = [] \<or> \<not> low_surrogate (hd str')"
    using assms by (cases str') (simp_all add: low_surrogate_def)
  then have "utf8 (str @ str') = utf8 str @ utf8 str'" by (rule utf8_append)
  with utf8_ascii [OF assms] show ?thesis by simp
qed

text \<open>
  The identifier, spelled out: on the web a prefix with a code unit above \<open>U+00FF\<close> makes
  \<open>btoa\<close> throw; otherwise the identifier is the encoding of the bytes of the prefix
  (one per code unit on the web, its UTF-8 encoding elsewhere) followed by the padded
  index.
\<close>

lemma blockID_eq:
  "blockID web prefix n =
     (if web \<and> \<not> list_all (\<lambda>c. c < 256) prefix then Inl (Error ''InvalidCharacterError'')
      else Inr (base64_bytes (prefix_bytes web prefix @ padStart (decimal n) 5)))"
proof -
  note a = padded_ascii [of n 5]
  have b: "list_all (\<lambda>c. c < 256) (code_units (padStart (decimal n) 5))"
    using a by (auto simp: list_all_iff)
  show ?thesis
  proof (cases web)
    case True
    with b show ?thesis
      by (simp add: blockID_def base64_def btoa_def prefix_bytes_def char_of_code_units)
  next
    case False
    with utf8_append_ascii [OF a, of prefix] show ?thesis
      by (simp add: blockID_def base64_def prefix_bytes_def char_of_code_units)
  qed
qed

lemma blockID_inj:
  assumes "blockID web prefix n = Inr b" and "blockID web prefix m = Inr b"
  shows "n = m"
proof -
  from assms have "base64_bytes (prefix_bytes web prefix @ padStart (decimal n) 5)
      = base64_bytes (prefix_bytes web prefix @ padStart (decimal m) 5)"
    by (simp add: blockID_eq split: if_splits)
  then have "prefix_bytes web prefix @ padStart (decimal n) 5
      = prefix_bytes web prefix @ padStart (decimal m) 5" by (rule base64_inj)
  then have "padStart (decimal n) 5 = padStart (decimal m) 5" by simp
  then show "n = m" by (rule padStart_decimal_inj)
qed

lemma blockID_chunk_eq:
  "blockID_chunk n = Inr (base64_bytes (''chunk'' @ padStart (decimal n) 5))"
proof -
  have "list_all (\<lambda>c. c < 256) (code_units (padStart (decimal n) 5))"
    using padded_ascii [of n 5] by (auto simp: list_all_iff)
  moreover have "list_all (\<lambda>c. c < 256) (code_units ''chunk'')" by (simp add: code_units_def)
  ultimately show ?thesis
    by (simp add: blockID_chunk_def btoa_def char_of_code_units)
qed

section \<open>The block plan\<close>

text \<open>
  For a positive file size and block size, \<open>totalBlocks\<close> is the ceiling of their quotient,
  and the ranges of the blocks follow one another from \<open>0\<close> to the file size.
\<close>

lemma ceil_div_bounds:
  assumes "0 < e"
  shows "(ceil_div a e - 1) * e < a" and "a \<le> ceil_div a e * e"
proof -
  have c: "ceil_div a e = - ((- a) div e)"
    by (simp add: ceil_div_def ceiling_divide_eq_div)
  have 1: "(- a) div e * e \<le> - a"
    using assms by (metis div_mult_mod_eq add.commute le_add_same_cancel2 pos_mod_sign)
  have 2: "- a < ((- a) div e + 1) * e"
    using assms by (metis add.commute distrib_right div_mult_mod_eq mult_1 add_less_cancel_left pos_mod_bound)
  from 1 c show "a \<le> ceil_div a e * e" by simp
  from 2 c show "(ceil_div a e - 1) * e < a" by (simp add: algebra_simps)
qed

lemma ceil_div_exact: "0 < e \<Longrightarrow> a mod e = 0 \<Longrightarrow> ceil_div a e = a div e"
  by (simp add: ceil_div_def ceiling_divide_eq_div zdiv_zminus1_eq_if)

lemma totalBlocks_analizeFile:
  assumes "this = analizeFile pf this0" and "0 < fileSize this" and "0 < blockSize this"
  shows "totalBlocks this = Fin (ceil_div (fileSize this) (blockSize this))"
  using assms ceil_div_exact [of "blockSize this" "fileSize this"]
  by (auto simp: analizeFile_def Let_def js_rem_def js_exact_div_def Math_ceil_div_def ceil_div_def
      split: if_splits)

lemma blockSize_analizeFile:
  "blockSize (analizeFile pf this0) = min (blockSize this0) (getSize pf (the_file this0))"
  "fileSize (analizeFile pf this0) = getSize pf (the_file this0)"
  "totalRemainingBytes (analizeFile pf this0) = getSize pf (the_file this0)"
  "blockIDPrefix (analizeFile pf this0) = blockIDPrefix this0"
  "simultaneousUploads (analizeFile pf this0) = simultaneousUploads this0"
  by (simp_all add: analizeFile_def Let_def)

lemma plan_facts:
  assumes "this = analizeFile pf this0" and "0 < fileSize this" and "0 < blockSize this"
  shows "\<exists>N. totalBlocks this = Fin (int N) \<and> 0 < N
           \<and> (int N - 1) * blockSize this < fileSize this
           \<and> fileSize this \<le> int N * blockSize this
           \<and> int N = ceil_div (fileSize this) (blockSize this)"
proof -
  let ?T = "ceil_div (fileSize this) (blockSize this)"
  have t: "totalBlocks this = Fin ?T" using assms by (rule totalBlocks_analizeFile)
  have up: "fileSize this \<le> ?T * blockSize this" and lo: "(?T - 1) * blockSize this < fileSize this"
    using ceil_div_bounds [OF assms(3)] by simp_all
  have "0 < ?T * blockSize this" using up assms(2) by linarith
  then have pos: "0 < ?T" using assms(3) by (simp add: zero_less_mult_iff)
  then have "int (nat ?T) = ?T" by simp
  with t up lo pos show ?thesis by (intro exI [of _ "nat ?T"]) simp
qed

lemma block_ranges:
  assumes e: "0 < blockSize this" and lo: "(int N - 1) * blockSize this < fileSize this"
    and up: "fileSize this \<le> int N * blockSize this" and n: "n < N"
  shows "block_from this n = int n * blockSize this"
    and "block_to this n = min ((int n + 1) * blockSize this) (fileSize this)"
    and "block_from this n < block_to this n"
    and "Suc n < N \<Longrightarrow> block_to this n = block_from this (Suc n)"
    and "Suc n = N \<Longrightarrow> block_to this n = fileSize this"
    and "block_from this n = min (int n * blockSize this) (fileSize this)"
proof -
  show f: "block_from this n = int n * blockSize this" by (simp add: block_from_def)
  show t: "block_to this n = min ((int n + 1) * blockSize this) (fileSize this)"
    by (simp add: block_to_def min_def)
  have "int n \<le> int N - 1" using n by simp
  then have "int n * blockSize this \<le> (int N - 1) * blockSize this"
    using e by (intro mult_right_mono) simp_all
  with lo have b: "int n * blockSize this < fileSize this" by simp
  then show "block_from this n = min (int n * blockSize this) (fileSize this)" using f by simp
  have "int n * blockSize this < (int n + 1) * blockSize this" using e by (simp add: algebra_simps)
  with b f t show "block_from this n < block_to this n" by simp
  show "block_to this n = block_from this (Suc n)" if "Suc n < N"
  proof -
    have "int n + 1 \<le> int N - 1" using that by simp
    then have "(int n + 1) * blockSize this \<le> (int N - 1) * blockSize this"
      using e by (intro mult_right_mono) simp_all
    with lo t show ?thesis by (simp add: block_from_def algebra_simps)
  qed
  show "block_to this n = fileSize this" if "Suc n = N"
  proof -
    from that have "int n + 1 = int N" by simp
    with up t show ?thesis by simp
  qed
qed

lemma block_lengths_sum:
  assumes e: "0 < blockSize this" and lo: "(int N - 1) * blockSize this < fileSize this"
    and up: "fileSize this \<le> int N * blockSize this" and fs: "0 < fileSize this"
  shows "(\<Sum>n<N. block_to this n - block_from this n) = fileSize this"
proof -
  let ?g = "\<lambda>n. min (int n * blockSize this) (fileSize this)"
  have "(\<Sum>n<N. block_to this n - block_from this n) = (\<Sum>n<N. ?g (Suc n) - ?g n)"
  proof (rule sum.cong)
    fix n assume "n \<in> {..<N}"
    then have n: "n < N" by simp
    show "block_to this n - block_from this n = ?g (Suc n) - ?g n"
      using block_ranges(2) [OF e lo up n] block_ranges(6) [OF e lo up n]
      by (simp add: algebra_simps)
  qed simp
  also have "\<dots> = ?g N - ?g 0" by (rule sum_lessThan_telescope)
  also have "\<dots> = fileSize this" using up fs by simp
  finally show ?thesis .
qed

lemma block_of_offset:
  assumes e: "0 < blockSize this" and lo: "(int N - 1) * blockSize this < fileSize this"
    and up: "fileSize this \<le> int N * blockSize this" and i: "0 \<le> i" "i < fileSize this"
  shows "\<exists>!n. n < N \<and> block_from this n \<le> i \<and> i < block_to this n"
proof -
  let ?b = "blockSize this"
  let ?n = "nat (i div ?b)"
  have d: "0 \<le> i div ?b" using i e by (simp add: pos_imp_zdiv_nonneg_iff)
  have l: "i div ?b * ?b \<le> i" using e by (metis div_mult_mod_eq add.commute le_add_same_cancel2 pos_mod_sign)
  have u: "i < (i div ?b + 1) * ?b"
    using e by (metis add.commute distrib_right div_mult_mod_eq mult_1 add_less_cancel_left pos_mod_bound)
  have "i div ?b * ?b < int N * ?b" using l i up by linarith
  then have "i div ?b < int N" using e by (simp add: mult_less_cancel_right)
  then have nN: "?n < N" using d by simp
  have unique: "m = ?n" if m: "m < N" "block_from this m \<le> i" "i < block_to this m" for m
  proof -
    from m(2) have a: "int m * ?b \<le> i" by (simp add: block_from_def)
    from m(3) block_ranges(2) [OF e lo up m(1)] have b: "i < (int m + 1) * ?b" by simp
    from a u have "int m * ?b < (i div ?b + 1) * ?b" by linarith
    then have 1: "int m < i div ?b + 1" using e by (simp add: mult_less_cancel_right)
    from b l have "i div ?b * ?b < (int m + 1) * ?b" by linarith
    then have 2: "i div ?b < int m + 1" using e by (simp add: mult_less_cancel_right)
    from 1 2 have "int m = i div ?b" by simp
    then show ?thesis by simp
  qed
  have f: "block_from this ?n \<le> i" using l d by (simp add: block_from_def)
  have t: "i < block_to this ?n"
    using block_ranges(2) [OF e lo up nN] u i d by simp
  show ?thesis
  proof (rule ex1I [of _ ?n])
    from nN f t show "?n < N \<and> block_from this ?n \<le> i \<and> i < block_to this ?n" by simp
  next
    fix m assume "m < N \<and> block_from this m \<le> i \<and> i < block_to this m"
    then show "m = ?n" using unique by blast
  qed
qed

section \<open>Block identifiers\<close>

text \<open>
  Claim C4, as amended: for every block index \<open>n\<close> the identifier is the base64 encoding
  of the prefix followed by the decimal index padded on the left with spaces (not zeros)
  to five characters. The bytes of the prefix are its code units on the web and its UTF-8
  encoding elsewhere; on the web a prefix with a code unit above \<open>U+00FF\<close> has no
  identifier, since \<open>btoa\<close> throws. The older variant of the class does the same with the
  prefix \<open>chunk\<close>. Two blocks have the same identifier only if they are the same block,
  for any number of blocks.
\<close>
theorem blockID_space_padded_and_distinct:
  "blockID web prefix n
     = (if web \<and> \<not> list_all (\<lambda>c. c < 256) prefix then Inl (Error ''InvalidCharacterError'')
        else Inr (base64_bytes ((if web then map char_of prefix else utf8 prefix)
                    @ replicate (5 - length (decimal n)) CHR '' '' @ decimal n)))
   \<and> blockID_chunk n
       = Inr (base64_bytes (''chunk'' @ replicate (5 - length (decimal n)) CHR '' '' @ decimal n))
   \<and> ((\<exists>b. blockID web prefix n = Inr b \<and> blockID web prefix m = Inr b)
        \<longleftrightarrow> n = m \<and> \<not> (web \<and> \<not> list_all (\<lambda>c. c < 256) prefix))
   \<and> (blockID_chunk n = blockID_chunk m \<longleftrightarrow> n = m)"
proof -
  have p: "padStart (decimal n) 5 = replicate (5 - length (decimal n)) CHR '' '' @ decimal n"
    by (simp add: padStart_def)
  have 1: "blockID web prefix n
     = (if web \<and> \<not> list_all (\<lambda>c. c < 256) prefix then Inl (Error ''InvalidCharacterError'')
        else Inr (base64_bytes ((if web then map char_of prefix else utf8 prefix)
                    @ replicate (5 - length (decimal n)) CHR '' '' @ decimal n)))"
    using blockID_eq [of web prefix n] p by (simp add: prefix_bytes_def)
  have 2: "blockID_chunk n
       = Inr (base64_bytes (''chunk'' @ replicate (5 - length (decimal n)) CHR '' '' @ decimal n))"
    using blockID_chunk_eq [of n] p by simp
  have 3: "(\<exists>b. blockID web prefix n = Inr b \<and> blockID web prefix m = Inr b)
        \<longleftrightarrow> n = m \<and> \<not> (web \<and> \<not> list_all (\<lambda>c. c < 256) prefix)"
  proof
    assume "\<exists>b. blockID web prefix n = Inr b \<and> blockID web prefix m = Inr b"
    then obtain b where b: "blockID web prefix n = Inr b" "blockID web prefix m = Inr b" by blast
    from b have "n = m" by (rule blockID_inj)
    moreover from b(1) have "\<not> (web \<and> \<not> list_all (\<lambda>c. c < 256) prefix)"
      by (simp add: blockID_eq split: if_splits)
    ultimately show "n = m \<and> \<not> (web \<and> \<not> list_all (\<lambda>c. c < 256) prefix)" by simp
  next
    assume "n = m \<and> \<not> (web \<and> \<not> list_all (\<lambda>c. c < 256) prefix)"
    then show "\<exists>b. blockID web prefix n = Inr b \<and> blockID web prefix m = Inr b"
      by (simp add: blockID_eq)
  qed
  have 4: "blockID_chunk n = blockID_chunk m \<longleftrightarrow> n = m"
  proof
    assume "blockID_chunk n = blockID_chunk m"
    then have "''chunk'' @ padStart (decimal n) 5 = ''chunk'' @ padStart (decimal m) 5"
      unfolding blockID_chunk_eq using base64_inj by blast
    then have "padStart (decimal n) 5 = padStart (decimal m) 5" by simp
    then show "n = m" by (rule padStart_decimal_inj)
  next
    assume "n = m"
    then show "blockID_chunk n = blockID_chunk m" by simp
  qed
  from 1 2 3 4 show ?thesis by blast
qed

text \<open>
  Claim C4 as stated fails at block 3 with the default prefix, on the web and elsewhere:
  the job computes the encoding of \<open>block\<close> followed by four spaces and \<open>3\<close>, not the
  encoding of \<open>block00003\<close>.
\<close>

theorem blockID_not_zero_padded:
  "blockID True (code_units ''block'') 3 = Inr ''YmxvY2sgICAgMw==''
   \<and> blockID False (code_units ''block'') 3 = Inr ''YmxvY2sgICAgMw==''
   \<and> base64 True (code_units (''block'' @ spec_zero_padded_index 3)) = Inr ''YmxvY2swMDAwMw==''
   \<and> blockID True (code_units ''block'') 3
       \<noteq> base64 True (code_units (''block'' @ spec_zero_padded_index 3))"
  by code_simp

section \<open>The constructor\<close>

text \<open>
  Claim C9, as amended: the constructor fails (with a plain \<open>Error\<close>, and before anything
  asynchronous, since it only computes) exactly when the url is not a string, the file is
  not a \<open>File\<close> (or not a string where \<open>File\<close> does not exist), or a truthy \<open>blockSize\<close> or
  \<open>simultaneousUploads\<close> is not a number. The sign of the sizes is never inspected.
\<close>
theorem constructor_rejects_wrong_types_only:
  "(\<exists>e. AzureBlockUpload pf url_arg file_arg opts = Inl e) \<longleftrightarrow>
     (typeof url_arg \<noteq> T_string
      \<or> (if File_is_function pf then \<not> is_file file_arg else typeof file_arg \<noteq> T_string)
      \<or> (truthy (opt_blockSize opts) \<and> typeof (opt_blockSize opts) \<noteq> T_number)
      \<or> (truthy (opt_simultaneousUploads opts)
           \<and> typeof (opt_simultaneousUploads opts) \<noteq> T_number))"
  by (cases url_arg) (simp_all add: AzureBlockUpload_def)

text \<open>Claim C9 as amended, at a negative file size and a negative block size.\<close>

theorem constructor_rejects_wrong_types_only_witness:
  "\<not> (\<exists>e. AzureBlockUpload example_platform (JS_string ''u'') (example_file (- 1))
           (example_options (- 5)) = Inl e)"
  using constructor_rejects_wrong_types_only
    [of example_platform "JS_string ''u''" "example_file (- 1)" "example_options (- 5)"]
  by (simp add: example_platform_def example_file_def example_options_def)

text \<open>
  Claim C9 as stated fails: a block size of \<open>-5\<close> is accepted (and gives \<open>-2\<close> blocks), a
  block size of \<open>0\<close> is replaced by the service maximum, and a negative file size is
  accepted.
\<close>

theorem constructor_accepts_nonpositive_sizes:
  "AzureBlockUpload example_platform (JS_string ''u'') (example_file 10) (example_options (- 5))
     = Inr (example_upload 10 (- 5) 10 (Fin (- 2)))
   \<and> AzureBlockUpload example_platform (JS_string ''u'') (example_file 10) (example_options 0)
     = Inr (example_upload 10 10 10 (Fin 1))
   \<and> AzureBlockUpload example_platform (JS_string ''u'') (example_file (- 1)) (example_options 4)
     = Inr (example_upload (- 1) (- 1) (- 1) (Fin 1))"
  by code_simp

section \<open>The partition of the file\<close>

lemma constructor_analizeFile:
  assumes "AzureBlockUpload pf url_arg file_arg opts = Inr this"
  shows "\<exists>this0. this = analizeFile pf this0 \<and> the_file this0 = file_arg
           \<and> blockSize this0 = number_or (opt_blockSize opts) (BLOCK_MAX_SIZE pf)"
  using assms by (cases url_arg) (auto simp: AzureBlockUpload_def split: if_splits)

lemma constructor_plan:
  assumes "AzureBlockUpload pf url_arg file_arg opts = Inr this"
    and "0 < fileSize this" and "0 < blockSize this"
  shows "\<exists>N. totalBlocks this = Fin (int N) \<and> 0 < N
           \<and> (int N - 1) * blockSize this < fileSize this
           \<and> fileSize this \<le> int N * blockSize this
           \<and> int N = ceil_div (fileSize this) (blockSize this)"
    and "totalRemainingBytes this = fileSize this"
proof -
  from constructor_analizeFile [OF assms(1)] obtain this0 where t: "this = analizeFile pf this0"
    by blast
  from plan_facts [OF t assms(2,3)]
  show "\<exists>N. totalBlocks this = Fin (int N) \<and> 0 < N
           \<and> (int N - 1) * blockSize this < fileSize this
           \<and> fileSize this \<le> int N * blockSize this
           \<and> int N = ceil_div (fileSize this) (blockSize this)" .
  from t show "totalRemainingBytes this = fileSize this" by (simp add: blockSize_analizeFile)
qed

text \<open>
  Claim C5, as amended: for every file size \<open>> 0\<close> and requested block size \<open>> 0\<close> the
  effective block size is the smaller of the two, \<open>totalBlocks\<close> is the ceiling of
  \<open>fileSize / blockSize\<close> and is the number of jobs \<open>start\<close> submits; block \<open>n\<close> covers
  \<open>[n * blockSize, min ((n + 1) * blockSize) fileSize)\<close>, which is never empty; the ranges
  follow one another from \<open>0\<close> to \<open>fileSize\<close>, their lengths sum to \<open>fileSize\<close>, and every
  byte offset of the file lies in exactly one of them.
\<close>
theorem block_ranges_partition_the_file:
  assumes "AzureBlockUpload pf url_arg file_arg opts = Inr this"
    and "0 < getSize pf file_arg"
    and "0 < number_or (opt_blockSize opts) (BLOCK_MAX_SIZE pf)"
  shows "fileSize this = getSize pf file_arg
    \<and> blockSize this = min (number_or (opt_blockSize opts) (BLOCK_MAX_SIZE pf)) (fileSize this)
    \<and> (\<exists>N. totalBlocks this = Fin (int N) \<and> jobs_of (totalBlocks this) = Some N
          \<and> int N = \<lceil>(of_int (fileSize this) :: rat) / of_int (blockSize this)\<rceil>
          \<and> (\<forall>n<N. block_from this n = int n * blockSize this
                \<and> block_to this n = min ((int n + 1) * blockSize this) (fileSize this)
                \<and> block_from this n < block_to this n)
          \<and> block_from this 0 = 0
          \<and> (\<forall>n. Suc n < N \<longrightarrow> block_to this n = block_from this (Suc n))
          \<and> block_to this (N - 1) = fileSize this
          \<and> (\<Sum>n<N. block_to this n - block_from this n) = fileSize this
          \<and> (\<forall>i. 0 \<le> i \<and> i < fileSize this \<longrightarrow>
                (\<exists>!n. n < N \<and> block_from this n \<le> i \<and> i < block_to this n)))"
proof -
  from constructor_analizeFile [OF assms(1)] obtain this0 where t: "this = analizeFile pf this0"
    and f: "the_file this0 = file_arg"
    and b: "blockSize this0 = number_or (opt_blockSize opts) (BLOCK_MAX_SIZE pf)"
    by blast
  from t f have fs: "fileSize this = getSize pf file_arg" by (simp add: blockSize_analizeFile)
  from t f b have bs: "blockSize this
      = min (number_or (opt_blockSize opts) (BLOCK_MAX_SIZE pf)) (fileSize this)"
    by (simp add: blockSize_analizeFile)
  from fs assms(2) have fpos: "0 < fileSize this" by simp
  from bs fpos assms(3) have e: "0 < blockSize this" by simp
  from plan_facts [OF t fpos e] obtain N where tb: "totalBlocks this = Fin (int N)"
    and N: "0 < N" and lo: "(int N - 1) * blockSize this < fileSize this"
    and up: "fileSize this \<le> int N * blockSize this"
    and c: "int N = ceil_div (fileSize this) (blockSize this)" by blast
  have 1: "\<forall>n<N. block_from this n = int n * blockSize this
                \<and> block_to this n = min ((int n + 1) * blockSize this) (fileSize this)
                \<and> block_from this n < block_to this n"
    using block_ranges(1-3) [OF e lo up] by blast
  have 2: "\<forall>n. Suc n < N \<longrightarrow> block_to this n = block_from this (Suc n)"
    using block_ranges(4) [OF e lo up] by simp
  have "N - 1 < N" "Suc (N - 1) = N" using N by simp_all
  then have 3: "block_to this (N - 1) = fileSize this"
    using block_ranges(5) [OF e lo up] by blast
  have 4: "(\<Sum>n<N. block_to this n - block_from this n) = fileSize this"
    using e lo up fpos by (rule block_lengths_sum)
  have 5: "\<forall>i. 0 \<le> i \<and> i < fileSize this \<longrightarrow>
                (\<exists>!n. n < N \<and> block_from this n \<le> i \<and> i < block_to this n)"
    using block_of_offset [OF e lo up] by blast
  have 6: "jobs_of (totalBlocks this) = Some N" using tb by (simp add: jobs_of_def)
  have 7: "block_from this 0 = 0" by (simp add: block_from_def)
  have 8: "int N = \<lceil>(of_int (fileSize this) :: rat) / of_int (blockSize this)\<rceil>"
    using c by (simp add: ceil_div_def)
  from fs bs tb 1 2 3 4 5 6 7 8 show ?thesis by blast
qed

text \<open>Claim C5 as amended, at a file of 10 bytes and a block size of 4.\<close>

theorem block_ranges_partition_the_file_witness:
  "0 < getSize example_platform (example_file 10)
   \<and> 0 < number_or (opt_blockSize (example_options 4)) (BLOCK_MAX_SIZE example_platform)
   \<and> blockSize (example_upload 10 4 10 (Fin 3)) = 4
   \<and> (\<exists>N. totalBlocks (example_upload 10 4 10 (Fin 3)) = Fin (int N)
         \<and> (\<Sum>n<N. block_to (example_upload 10 4 10 (Fin 3)) n
                    - block_from (example_upload 10 4 10 (Fin 3)) n) = 10)"
proof -
  have c: "AzureBlockUpload example_platform (JS_string ''u'') (example_file 10) (example_options 4)
     = Inr (example_upload 10 4 10 (Fin 3))" by code_simp
  have g: "0 < getSize example_platform (example_file 10)"
    by (simp add: example_platform_def example_file_def)
  have b: "0 < number_or (opt_blockSize (example_options 4)) (BLOCK_MAX_SIZE example_platform)"
    by (simp add: example_options_def)
  from block_ranges_partition_the_file [OF c g b]
  obtain N where t: "totalBlocks (example_upload 10 4 10 (Fin 3)) = Fin (int N)"
    and l: "(\<Sum>n<N. block_to (example_upload 10 4 10 (Fin 3)) n
                    - block_from (example_upload 10 4 10 (Fin 3)) n)
            = fileSize (example_upload 10 4 10 (Fin 3))"
    by blast
  have f: "fileSize (example_upload 10 4 10 (Fin 3)) = 10"
    and e: "blockSize (example_upload 10 4 10 (Fin 3)) = 4"
    by (simp_all add: example_upload_def)
  from l f have "(\<Sum>n<N. block_to (example_upload 10 4 10 (Fin 3)) n
                    - block_from (example_upload 10 4 10 (Fin 3)) n) = 10" by simp
  with t have "\<exists>N. totalBlocks (example_upload 10 4 10 (Fin 3)) = Fin (int N)
         \<and> (\<Sum>n<N. block_to (example_upload 10 4 10 (Fin 3)) n
                    - block_from (example_upload 10 4 10 (Fin 3)) n) = 10" by blast
  with g b e show ?thesis by blast
qed

text \<open>
  Claim C5 as stated fails at \<open>fileSize = 0\<close>: the block size shrinks to \<open>0\<close> and
  \<open>totalBlocks\<close> is \<open>NaN\<close>, which is no number of blocks.
\<close>

theorem empty_file_has_no_block_count:
  "AzureBlockUpload example_platform (JS_string ''u'') (example_file 0) (example_options 4)
     = Inr (example_upload 0 0 0 NaN)
   \<and> blockSize (example_upload 0 0 0 NaN) = 0
   \<and> totalBlocks (example_upload 0 0 0 NaN) = NaN
   \<and> jobs_of (totalBlocks (example_upload 0 0 0 NaN)) = Some 0"
  by code_simp

section \<open>The empty file\<close>

lemma resume_no_jobs: "phases s = [] \<Longrightarrow> resume this env k n s = s"
  by (simp add: resume_def)

lemma run_no_jobs: "phases s = [] \<Longrightarrow> run this env k schedule s = s"
  by (induction schedule) (simp_all add: run_def resume_no_jobs)

text \<open>
  Claim C7 against the code: for a file of 0 bytes the constructor succeeds with
  \<open>totalBlocks = NaN\<close>, \<open>start\<close> submits no job, and whatever settles afterwards the state
  stays as it is: the promise is pending for ever, nothing is transferred or committed and
  no callback is called. The upload is neither performed as one empty block nor rejected.
\<close>

theorem empty_file_upload_never_settles:
  "AzureBlockUpload example_platform (JS_string ''u'') (example_file 0) (example_options 4)
     = Inr (example_upload 0 0 0 NaN)
   \<and> start (example_upload 0 0 0 NaN) env = Some (initial_state (example_upload 0 0 0 NaN) 0)
   \<and> phases (initial_state (example_upload 0 0 0 NaN) 0) = []
   \<and> run (example_upload 0 0 0 NaN) env k schedule (initial_state (example_upload 0 0 0 NaN) 0)
       = initial_state (example_upload 0 0 0 NaN) 0
   \<and> promise (initial_state (example_upload 0 0 0 NaN) 0) = Pending
   \<and> trace (initial_state (example_upload 0 0 0 NaN) 0) = []"
proof -
  have c: "AzureBlockUpload example_platform (JS_string ''u'') (example_file 0) (example_options 4)
     = Inr (example_upload 0 0 0 NaN)" by code_simp
  have s: "start (example_upload 0 0 0 NaN) env = Some (initial_state (example_upload 0 0 0 NaN) 0)"
    by (simp add: start_def jobs_of_def example_upload_def)
  have p: "phases (initial_state (example_upload 0 0 0 NaN) 0) = []"
    by (simp add: initial_state_def)
  from c s p run_no_jobs [OF p] show ?thesis by (simp add: initial_state_def)
qed

section \<open>Lists, counts and traces\<close>

lemma errors_append: "errors (tr @ tr') = errors tr @ errors tr'"
  by (induction tr rule: errors.induct) simp_all

lemma successes_append: "successes (tr @ tr') = successes tr @ successes tr'"
  by (induction tr rule: successes.induct) simp_all

lemma commits_append: "commits (tr @ tr') = commits tr + commits tr'"
  by (simp add: commits_def)

lemma errors_Nil_iff: "errors tr = [] \<longleftrightarrow> filter is_error tr = []"
  by (induction tr rule: errors.induct) simp_all

lemma no_commit_after_error_snoc:
  "no_commit_after_error (tr @ [ev]) \<longleftrightarrow>
     no_commit_after_error tr \<and> (is_commit ev \<or> is_success ev \<longrightarrow> errors tr = [])"
  by (induction tr) (auto simp: errors_Nil_iff)

lemma count_update:
  "n < length xs \<Longrightarrow>
     length (filter P (xs[n := v])) + (if P (xs ! n) then 1 else 0)
       = length (filter P xs) + (if P v then 1 else 0)"
proof (induction xs arbitrary: n)
  case Nil
  then show ?case by simp
next
  case (Cons x xs)
  then show ?case by (cases n) auto
qed

lemma count_same:
  "n < length xs \<Longrightarrow> P (xs ! n) = P v \<Longrightarrow> length (filter P (xs[n := v])) = length (filter P xs)"
  using count_update [of n xs P v] by (simp split: if_splits)

lemma count_add:
  "n < length xs \<Longrightarrow> \<not> P (xs ! n) \<Longrightarrow> P v
     \<Longrightarrow> length (filter P (xs[n := v])) = Suc (length (filter P xs))"
  using count_update [of n xs P v] by simp

lemma count_del:
  "n < length xs \<Longrightarrow> P (xs ! n) \<Longrightarrow> \<not> P v
     \<Longrightarrow> Suc (length (filter P (xs[n := v]))) = length (filter P xs)"
  using count_update [of n xs P v] by simp

lemma count_less: "n < length xs \<Longrightarrow> \<not> P (xs ! n) \<Longrightarrow> length (filter P xs) < length xs"
  by (meson length_filter_less nth_mem)

lemma count_pos: "n < length xs \<Longrightarrow> P (xs ! n) \<Longrightarrow> 0 < length (filter P xs)"
  by (metis filter_empty_conv length_greater_0_conv nth_mem)

lemma count_all: "length (filter P xs) = length xs \<Longrightarrow> x \<in> set xs \<Longrightarrow> P x"
  by (metis length_filter_less less_irrefl)

lemma count_none: "length (filter P xs) = 0 \<Longrightarrow> x \<in> set xs \<Longrightarrow> \<not> P x"
  by (metis filter_empty_conv length_0_conv)

lemma count_all_nth: "length (filter P xs) = length xs \<Longrightarrow> i < length xs \<Longrightarrow> P (xs ! i)"
  using count_all [of P xs "xs ! i"] by simp

lemma commits_Cons: "commits (ev # tr) = (if is_commit ev then 1 else 0) + commits tr"
  by (simp add: commits_def)

lemma commits_Nil: "commits [] = 0"
  by (simp add: commits_def)

lemma no_commit_after_error_append:
  "no_commit_after_error (tr @ tr') \<longleftrightarrow>
     no_commit_after_error tr \<and> no_commit_after_error tr'
     \<and> (errors tr = [] \<or> filter (\<lambda>x. is_commit x \<or> is_success x) tr' = [])"
proof (induction tr)
  case Nil
  then show ?case by simp
next
  case (Cons ev tr)
  then show ?case by (cases ev) (auto simp: errors_Nil_iff)
qed

lemma all_returned_nth:
  "filter (\<lambda>p. p \<noteq> Returned) xs = [] \<Longrightarrow> n < length xs \<Longrightarrow> xs ! n = Returned"
  by (metis (mono_tags, lifting) filter_empty_conv nth_mem)

lemma passed_not_committing: "passed p \<Longrightarrow> \<not> committing p \<Longrightarrow> p = Returned"
  by (cases p rule: passed.cases) simp_all

lemma expected_promise_reject:
  "reject e (expected_promise es []) = expected_promise (es @ [e]) []"
  by (cases es) simp_all

lemma filter_replicate_False: "\<not> P x \<Longrightarrow> filter P (replicate n x) = []"
  by (induction n) simp_all

lemma started_count:
  assumes "\<forall>n<length xs. (xs ! n = NotStarted) = (m \<le> n)" and "m \<le> length xs"
  shows "length (filter (\<lambda>p. p \<noteq> NotStarted) xs) = m"
proof -
  have a: "filter (\<lambda>p. p \<noteq> NotStarted) (take m xs) = take m xs"
  proof -
    have "x \<noteq> NotStarted" if "x \<in> set (take m xs)" for x
    proof -
      from that obtain i where i: "i < length (take m xs)" "take m xs ! i = x"
        by (auto simp: in_set_conv_nth)
      then have "i < m" "i < length xs" "xs ! i = x" by simp_all
      with assms(1) show ?thesis by auto
    qed
    then show ?thesis by simp
  qed
  have b: "filter (\<lambda>p. p \<noteq> NotStarted) (drop m xs) = []"
  proof -
    have "x = NotStarted" if "x \<in> set (drop m xs)" for x
    proof -
      from that obtain i where i: "i < length (drop m xs)" "drop m xs ! i = x"
        by (auto simp: in_set_conv_nth)
      then have "m + i < length xs" "xs ! (m + i) = x" by simp_all
      with assms(1) show ?thesis by auto
    qed
    then show ?thesis by (simp add: filter_empty_conv)
  qed
  have "filter (\<lambda>p. p \<noteq> NotStarted) xs
      = filter (\<lambda>p. p \<noteq> NotStarted) (take m xs) @ filter (\<lambda>p. p \<noteq> NotStarted) (drop m xs)"
    by (metis append_take_drop_id filter_append)
  with a b assms(2) show ?thesis by simp
qed

lemma arr_get_set: "arr_get (arr_set xs i v) j = (if j = i then Some v else arr_get xs j)"
  by (auto simp: arr_get_def arr_set_def nth_append)

section \<open>The pool, the list and the artifacts: computable identifiers\<close>

text \<open>
  Nothing here depends on the sizes of the upload, only on \<open>base64\<close> not throwing:
  \<open>start\<close> establishes the invariant of the pool and of the artifacts, and every step
  keeps it. The lemmas follow the code: the artifacts under each kind of segment, the pool
  when a job is started or queued, then the three segments, the end of a segment, a step
  and a run.
\<close>

lemma artifacts_step:
  assumes "artifacts_inv this env k N xs a" and "length xs = N" and "n < N"
    and "art_at this env k a' p n"
    and "\<And>m. m \<noteq> n \<Longrightarrow> arr_get (range_of a') m = arr_get (range_of a) m
            \<and> arr_get (iv a') m = arr_get (iv a) m
            \<and> arr_get (at_of a') m = arr_get (at_of a) m"
    and "k = None \<longrightarrow> iv a' = [] \<and> at_of a' = []"
    and "ad a' = ad a" and "encryption_stratergy a' = encryption_stratergy a"
  shows "artifacts_inv this env k N (xs[n := p]) a'"
proof -
  have "art_at this env k a' (xs[n := p] ! m) m" if m: "m < N" for m
  proof (cases "m = n")
    case True
    with assms(2-4) show ?thesis by simp
  next
    case False
    from assms(1) m have "art_at this env k a (xs ! m) m" by (simp add: artifacts_inv_def)
    with assms(5) [OF False] False show ?thesis by (simp add: art_at_def)
  qed
  with assms(1,6-8) show ?thesis by (simp add: artifacts_inv_def)
qed

lemma artifacts_same:
  assumes "artifacts_inv this env k N xs a" and "read_done p = read_done (xs ! n)"
    and "encrypt_done p = encrypt_done (xs ! n)" and "length xs = N" and "n < N"
  shows "artifacts_inv this env k N (xs[n := p]) a"
proof (rule artifacts_step [OF assms(1,4,5)])
  from assms(1,5) have "art_at this env k a (xs ! n) n" by (simp add: artifacts_inv_def)
  with assms(2,3) show "art_at this env k a p n" by (simp add: art_at_def)
  from assms(1) show "k = None \<longrightarrow> iv a = [] \<and> at_of a = []" by (simp add: artifacts_inv_def)
qed simp_all

lemma artifacts_read_plain:
  assumes "artifacts_inv this env None N xs a" and "xs ! n = AwaitRead r" and "length xs = N" and "n < N"
  shows "artifacts_inv this env None N (xs[n := AwaitPut r'])
           (a\<lparr>range_of := arr_set (range_of a) n (range_string this n)\<rparr>)"
proof (rule artifacts_step [OF assms(1,3,4)])
  from assms(1,4) have "art_at this env None a (xs ! n) n" by (simp add: artifacts_inv_def)
  with assms(2) show "art_at this env None
      (a\<lparr>range_of := arr_set (range_of a) n (range_string this n)\<rparr>) (AwaitPut r') n"
    by (simp add: art_at_def arr_get_set)
  from assms(1) show "None = None \<longrightarrow>
      iv (a\<lparr>range_of := arr_set (range_of a) n (range_string this n)\<rparr>) = []
      \<and> at_of (a\<lparr>range_of := arr_set (range_of a) n (range_string this n)\<rparr>) = []"
    by (simp add: artifacts_inv_def)
qed (simp_all add: arr_get_set)

lemma artifacts_read_encrypted:
  assumes "artifacts_inv this env (Some key) N xs a" and "xs ! n = AwaitRead r" and "length xs = N"
    and "n < N"
  shows "artifacts_inv this env (Some key) N (xs[n := AwaitPut r'])
           (a\<lparr>range_of := arr_set (range_of a) n (range_string this n),
              iv := arr_set (iv a) n (randomBytes env n 12),
              at_of := arr_set (at_of a) n tag\<rparr>)"
proof (rule artifacts_step [OF assms(1,3,4)])
  show "art_at this env (Some key)
      (a\<lparr>range_of := arr_set (range_of a) n (range_string this n),
         iv := arr_set (iv a) n (randomBytes env n 12),
         at_of := arr_set (at_of a) n tag\<rparr>) (AwaitPut r') n"
    by (simp add: art_at_def arr_get_set)
qed (simp_all add: arr_get_set)

lemma artifacts_encrypt_failed:
  assumes "artifacts_inv this env (Some key) N xs a" and "xs ! n = AwaitRead r" and "length xs = N"
    and "n < N"
  shows "artifacts_inv this env (Some key) N (xs[n := Caught InEncrypt])
           (a\<lparr>range_of := arr_set (range_of a) n (range_string this n)\<rparr>)"
proof (rule artifacts_step [OF assms(1,3,4)])
  from assms(1,4) have "art_at this env (Some key) a (xs ! n) n" by (simp add: artifacts_inv_def)
  with assms(2) show "art_at this env (Some key)
      (a\<lparr>range_of := arr_set (range_of a) n (range_string this n)\<rparr>) (Caught InEncrypt) n"
    by (simp add: art_at_def arr_get_set)
qed (simp_all add: arr_get_set)

text \<open>
  When the identifiers can be computed, the first segment of a job never ends it, so the
  pool starts exactly one job per free slot.
\<close>

lemma blockID_returns:
  "\<not> identifier_throws this env
     \<Longrightarrow> blockID (isRunningOnWeb env) (blockIDPrefix this) n = Inr (the_blockID this env n)"
  by (simp add: the_blockID_def blockID_eq identifier_throws_def)

lemma blockID_throws:
  "identifier_throws this env
     \<Longrightarrow> blockID (isRunningOnWeb env) (blockIDPrefix this) n
           = Inl (Error ''InvalidCharacterError'')"
  by (simp add: blockID_eq identifier_throws_def)

lemma job_start_returns:
  assumes "\<not> identifier_throws this env"
  shows "job_start this env m s
    = (AwaitRead (readBlock env (the_file this) (block_from this m) (block_to this m)),
       s\<lparr>blockIDList := blockIDList s @ [the_blockID this env m],
         trace := trace s @ [Call_readBlock (block_from this m) (block_to this m)]\<rparr>)"
  by (simp add: job_start_def Let_def blockID_returns [OF assms])

lemma job_start_throws:
  assumes "identifier_throws this env"
  shows "job_start this env m s = catch_error InBlockID (Error ''InvalidCharacterError'') s"
  by (simp add: job_start_def Let_def blockID_throws [OF assms])

lemma pool_task_ended_returns:
  assumes "\<not> identifier_throws this env"
  shows "pool_task_ended this env s
    = (case queue s of
         [] \<Rightarrow> s\<lparr>running := running s - 1\<rparr>
       | m # q \<Rightarrow> job_begun this env m (s\<lparr>queue := q\<rparr>))"
  by (cases "queue s")
     (simp_all add: pool_task_ended_def job_start_returns [OF assms] job_begun_def)

lemma pool_run_returns:
  assumes "\<not> identifier_throws this env"
  shows "pool_run this env j s
    = (if int (running s) < simultaneousUploads this
       then job_begun this env j (s\<lparr>running := Suc (running s)\<rparr>)
       else s\<lparr>queue := queue s @ [j]\<rparr>)"
  by (simp add: pool_run_def after_segment_def job_start_returns [OF assms] job_begun_def)

lemma pool_invD:
  assumes "pool_inv this env N j s"
  shows "length (phases s) = N" and "j \<le> N" and "length (blockIDList s) \<le> j"
    and "queue s = [length (blockIDList s)..<j]"
    and "blockIDList s = map (the_blockID this env) [0..<length (blockIDList s)]"
    and "n < N \<Longrightarrow> (phases s ! n = NotStarted) = (length (blockIDList s) \<le> n)"
    and "queue s \<noteq> [] \<Longrightarrow> simultaneousUploads this \<le> int (running s)"
    and "length (filter is_read (trace s)) = length (blockIDList s)"
  using assms by (simp_all add: pool_inv_def)

lemma pool_inv_start_now:
  assumes "pool_inv this env N j s" and "j < N" and "int (running s) < simultaneousUploads this"
  shows "pool_inv this env N (Suc j) (job_begun this env j (s\<lparr>running := Suc (running s)\<rparr>))"
    and "phases s ! j = NotStarted"
proof -
  note d = pool_invD [OF assms(1)]
  from d(7) assms(3) have q: "queue s = []" by fastforce
  with d(4) have "[length (blockIDList s)..<j] = []" by simp
  then have "j \<le> length (blockIDList s)" by auto
  with d(3) have m: "length (blockIDList s) = j" by simp
  from d(6) [OF assms(2)] m show "phases s ! j = NotStarted" by simp
  have "blockIDList s @ [the_blockID this env j]
      = map (the_blockID this env) [0..<Suc j]"
    using d(5) m by simp
  moreover have "(phases s)[j := AwaitRead r] ! n = NotStarted \<longleftrightarrow> Suc j \<le> n" if "n < N" for n r
    using d(6) [OF that] d(1) m that by (cases "n = j") auto
  ultimately show "pool_inv this env N (Suc j) (job_begun this env j (s\<lparr>running := Suc (running s)\<rparr>))"
    using d(1,8) assms(2) m q by (simp add: pool_inv_def job_begun_def)
qed

lemma pool_inv_enqueue:
  assumes "pool_inv this env N j s" and "j < N" and "\<not> int (running s) < simultaneousUploads this"
  shows "pool_inv this env N (Suc j) (s\<lparr>queue := queue s @ [j]\<rparr>)"
proof -
  note d = pool_invD [OF assms(1)]
  from d(3,4) have "queue s @ [j] = [length (blockIDList s)..<Suc j]" by simp
  with d assms(2,3) show ?thesis by (simp add: pool_inv_def)
qed

lemma frame_invD:
  assumes "frame_inv this env k N j s"
  shows "pool_inv this env N j s" and "artifacts_inv this env k N (phases s) (artifacts s)"
    and "length (phases s) = N"
  using assms by (simp_all add: frame_inv_def pool_inv_def)

lemma frame_inv_job_begun:
  assumes "artifacts_inv this env k N (phases s) (artifacts s)" and "length (phases s) = N"
    and "m < N" and "phases s ! m = NotStarted"
  shows "artifacts_inv this env k N (phases (job_begun this env m s))
           (artifacts (job_begun this env m s))"
  using artifacts_same [OF assms(1) _ _ assms(2,3), of "AwaitRead r" for r] assms(4)
  by (simp add: job_begun_def)

lemma frame_inv_pool_run:
  assumes "frame_inv this env k N j s" and "j < N" and ok: "\<not> identifier_throws this env"
  shows "frame_inv this env k N (Suc j) (pool_run this env j s)"
proof (cases "int (running s) < simultaneousUploads this")
  case True
  note f = frame_invD [OF assms(1)]
  note s = pool_inv_start_now [OF f(1) assms(2) True]
  from f(2,3) have "artifacts_inv this env k N (phases (s\<lparr>running := Suc (running s)\<rparr>))
      (artifacts (s\<lparr>running := Suc (running s)\<rparr>))"
    and "length (phases (s\<lparr>running := Suc (running s)\<rparr>)) = N" by simp_all
  from frame_inv_job_begun [OF this assms(2)] s(2)
  have "artifacts_inv this env k N
      (phases (job_begun this env j (s\<lparr>running := Suc (running s)\<rparr>)))
      (artifacts (job_begun this env j (s\<lparr>running := Suc (running s)\<rparr>)))" by simp
  with s(1) True show ?thesis by (simp add: frame_inv_def pool_run_returns [OF ok])
next
  case False
  note f = frame_invD [OF assms(1)]
  from pool_inv_enqueue [OF f(1) assms(2) False] f(2) False
  show ?thesis by (simp add: frame_inv_def pool_run_returns [OF ok])
qed

lemma frame_inv_initial: "frame_inv this env k N 0 (initial_state this N)"
  by (simp add: frame_inv_def pool_inv_def artifacts_inv_def art_at_def initial_state_def
      arr_get_def)

lemma frame_inv_submitted:
  assumes "j \<le> N" and ok: "\<not> identifier_throws this env"
  shows "frame_inv this env k N j (fold (pool_run this env) [0..<j] (initial_state this N))"
  using assms(1)
proof (induction j)
  case 0
  show ?case by (simp add: frame_inv_initial)
next
  case (Suc j)
  then have "frame_inv this env k N j (fold (pool_run this env) [0..<j] (initial_state this N))"
    by simp
  from frame_inv_pool_run [OF this _ ok] Suc.prems show ?case by simp
qed

lemma start_unfold:
  assumes "start this env = Some s0"
  shows "\<exists>N. jobs_of (totalBlocks this) = Some N
           \<and> s0 = fold (pool_run this env) [0..<N] (initial_state this N)"
  using assms by (cases "jobs_of (totalBlocks this)") (simp_all add: start_def)

lemma frame_inv_start:
  assumes "start this env = Some s0" and ok: "\<not> identifier_throws this env"
  shows "\<exists>N. jobs_of (totalBlocks this) = Some N \<and> frame_inv this env k N N s0"
  using start_unfold [OF assms(1)] frame_inv_submitted [OF _ ok, of _ _ k] by blast

lemma seg_frame_after_read:
  assumes "frame_inv this env k N N s" and "n < N" and "phases s ! n = AwaitRead r"
  shows "seg_frame this env k N n s (after_read this env k n r s)"
proof -
  note f = frame_invD [OF assms(1)]
  show ?thesis
  proof (cases r)
    case (Inl e)
    from artifacts_same [OF f(2) _ _ f(3) assms(2), of "Caught InRead"] assms(3) Inl
    show ?thesis by (simp add: seg_frame_def after_read_def catch_error_def)
  next
    case (Inr data)
    show ?thesis
    proof (cases k)
      case None
      from artifacts_read_plain [OF f(2) [unfolded None] assms(3) f(3) assms(2)] Inr None
      show ?thesis by (simp add: seg_frame_def after_read_def Let_def)
    next
      case (Some key)
      show ?thesis
      proof (cases "encryptWithKeyUsingArtefacts env key data AES_GCM (randomBytes env n 12)")
        case (Inl e)
        from artifacts_encrypt_failed [OF f(2) [unfolded Some] assms(3) f(3) assms(2)] Inr Some Inl
        show ?thesis by (simp add: seg_frame_def after_read_def catch_error_def Let_def)
      next
        case (Inr ct)
        obtain encrypted tag where ct: "ct = (encrypted, tag)" by (cases ct)
        from artifacts_read_encrypted [OF f(2) [unfolded Some] assms(3) f(3) assms(2)]
          \<open>r = Inr data\<close> Some Inr ct
        show ?thesis by (simp add: seg_frame_def after_read_def Let_def)
      qed
    qed
  qed
qed

lemma seg_frame_after_put:
  assumes "frame_inv this env k N N s" and "n < N" and "phases s ! n = AwaitPut r"
  shows "seg_frame this env k N n s (after_put this env n r s)"
proof -
  note f = frame_invD [OF assms(1)]
  have a: "artifacts_inv this env k N ((phases s)[n := q]) (artifacts s)"
    if "read_done q" "encrypt_done q" for q
    using that assms(3) by (intro artifacts_same [OF f(2) _ _ f(3) assms(2)]) simp_all
  show ?thesis
  proof (cases r)
    case (Inl e)
    with a [of "Caught InPut"] show ?thesis
      by (simp add: seg_frame_def after_put_def catch_error_def)
  next
    case (Inr u)
    show ?thesis
    proof (cases "this_totalRemainingBytes s - blockSize this \<le> 0")
      case True
      with Inr a [of "AwaitCommit (putBlockList env (url this) (blockIDList s) (fileType this))"]
      show ?thesis by (auto simp: seg_frame_def after_put_def Let_def)
    next
      case False
      with Inr a [of Returned] show ?thesis
        by (simp add: seg_frame_def after_put_def report_and_return_def Let_def)
    qed
  qed
qed

lemma seg_frame_after_commit:
  assumes "frame_inv this env k N N s" and "n < N" and "phases s ! n = AwaitCommit r"
  shows "seg_frame this env k N n s (after_commit this n r s)"
proof -
  note f = frame_invD [OF assms(1)]
  have a: "artifacts_inv this env k N ((phases s)[n := q]) (artifacts s)"
    if "read_done q" "encrypt_done q" for q
    using that assms(3) by (intro artifacts_same [OF f(2) _ _ f(3) assms(2)]) simp_all
  show ?thesis
  proof (cases r)
    case (Inl e)
    with a [of "Caught InCommit"] show ?thesis
      by (simp add: seg_frame_def after_commit_def catch_error_def)
  next
    case (Inr u)
    with a [of Returned] show ?thesis
      by (simp add: seg_frame_def after_commit_def report_and_return_def Let_def)
  qed
qed

text \<open>
  The end of a segment, spelled out: the job takes its position, and if it has ended, the
  head of the queue (if any) begins, which is the first job not yet begun.
\<close>

lemma after_segment_cases:
  assumes "frame_inv this env k N N s" and "n < N" and "phases s ! n \<noteq> NotStarted"
    and "seg_frame this env k N n s (p', s')" and ok: "\<not> identifier_throws this env"
  obtains
    (stay) "after_segment this env n (p', s') = s'\<lparr>phases := (phases s)[n := p']\<rparr>"
           "\<not> ended p'"
  | (free) "after_segment this env n (p', s')
              = s'\<lparr>phases := (phases s)[n := p'], running := running s - 1\<rparr>"
           "ended p'" "queue s = []"
  | (dispatch) m where "after_segment this env n (p', s')
              = job_begun this env m (s'\<lparr>phases := (phases s)[n := p'], queue := [Suc m..<N]\<rparr>)"
           "ended p'" "m = length (blockIDList s)" "m < N" "m \<noteq> n" "phases s ! m = NotStarted"
           "queue s = m # [Suc m..<N]"
proof -
  note d = pool_invD [OF frame_invD(1) [OF assms(1)]]
  from assms(4) have same: "queue s' = queue s" "running s' = running s" "phases s' = phases s"
    by (simp_all add: seg_frame_def)
  show thesis
  proof (cases "ended p'")
    case False
    with same stay show ?thesis by (simp add: after_segment_def Let_def)
  next
    case True
    show ?thesis
    proof (cases "queue s")
      case Nil
      with True same free show ?thesis
        by (simp add: after_segment_def pool_task_ended_returns [OF ok] Let_def)
    next
      case (Cons m q)
      with d(4) have "[length (blockIDList s)..<N] = m # q" by simp
      then have m: "m = length (blockIDList s)" and mN: "m < N" and q: "q = [Suc m..<N]"
        by (auto simp: upt_eq_Cons_conv)
      from d(6) [OF mN] m have ns: "phases s ! m = NotStarted" by simp
      with assms(3) have "m \<noteq> n" by auto
      with True same Cons q m mN ns dispatch [of m] show ?thesis
        by (simp add: after_segment_def pool_task_ended_returns [OF ok] Let_def)
    qed
  qed
qed

lemma pool_inv_take_position:
  assumes "pool_inv this env N N s" and "n < N" and "phases s ! n \<noteq> NotStarted"
    and "seg_frame this env k N n s (p', s')"
  shows "pool_inv this env N N (s'\<lparr>phases := (phases s)[n := p']\<rparr>)"
proof -
  note d = pool_invD [OF assms(1)]
  from assms(4) have ok: "p' \<noteq> NotStarted" "blockIDList s' = blockIDList s" "queue s' = queue s"
    "running s' = running s" "filter is_read (trace s') = filter is_read (trace s)"
    by (simp_all add: seg_frame_def)
  have started: "\<not> length (blockIDList s) \<le> n" using d(6) [OF assms(2)] assms(3) by simp
  have "((phases s)[n := p'] ! i = NotStarted) = (length (blockIDList s) \<le> i)" if "i < N" for i
    using d(6) [OF that] d(1) ok(1) started that by (cases "i = n") simp_all
  with d ok show ?thesis by (simp add: pool_inv_def)
qed

lemma pool_inv_next_job:
  assumes "pool_inv this env N N s" and "queue s = m # q"
  shows "pool_inv this env N N (job_begun this env m (s\<lparr>queue := q\<rparr>))"
proof -
  note d = pool_invD [OF assms(1)]
  from d(4) assms(2) have "[length (blockIDList s)..<N] = m # q" by simp
  then have m: "m = length (blockIDList s)" and mN: "m < N" and q: "q = [Suc m..<N]"
    by (auto simp: upt_eq_Cons_conv)
  have "blockIDList s @ [the_blockID this env m]
      = map (the_blockID this env) [0..<Suc m]" using d(5) m by simp
  moreover have "((phases s)[m := AwaitRead r] ! i = NotStarted) = (Suc m \<le> i)" if "i < N" for i r
    using d(6) [OF that] d(1) m mN that by (cases "i = m") auto
  moreover have "simultaneousUploads this \<le> int (running s)" using d(7) assms(2) by simp
  ultimately show ?thesis using d(1,8) mN q m by (simp add: pool_inv_def job_begun_def)
qed

lemma after_segment_frame:
  assumes "frame_inv this env k N N s" and "n < N" and "phases s ! n \<noteq> NotStarted"
    and "seg_frame this env k N n s ps" and ok: "\<not> identifier_throws this env"
  shows "frame_inv this env k N N (after_segment this env n ps)"
proof -
  obtain p' s' where ps: "ps = (p', s')" by (cases ps)
  note f = frame_invD [OF assms(1)]
  from assms(4) ps have sf: "seg_frame this env k N n s (p', s')" by simp
  then have a: "artifacts_inv this env k N ((phases s)[n := p']) (artifacts s')"
    and q: "queue s' = queue s" by (simp_all add: seg_frame_def)
  let ?s1 = "s'\<lparr>phases := (phases s)[n := p']\<rparr>"
  note p1 = pool_inv_take_position [OF f(1) assms(2,3) sf]
  from assms(1-3) sf ok show ?thesis
  proof (cases rule: after_segment_cases)
    case stay
    with p1 a ps show ?thesis by (simp add: frame_inv_def)
  next
    case free
    from p1 free(3) q have "pool_inv this env N N (?s1\<lparr>running := running s - 1\<rparr>)"
      by (simp add: pool_inv_def)
    with free(1) a ps show ?thesis by (simp add: frame_inv_def)
  next
    case (dispatch m)
    from dispatch(7) q have "queue ?s1 = m # [Suc m..<N]" by simp
    from pool_inv_next_job [OF p1 this]
    have pj: "pool_inv this env N N (job_begun this env m (?s1\<lparr>queue := [Suc m..<N]\<rparr>))" .
    have "artifacts_inv this env k N (phases (?s1\<lparr>queue := [Suc m..<N]\<rparr>))
        (artifacts (?s1\<lparr>queue := [Suc m..<N]\<rparr>))"
      and "length (phases (?s1\<lparr>queue := [Suc m..<N]\<rparr>)) = N"
      and "phases (?s1\<lparr>queue := [Suc m..<N]\<rparr>) ! m = NotStarted"
      using a f(3) dispatch(5,6) by simp_all
    from frame_inv_job_begun [OF this(1,2) dispatch(4) this(3)] pj dispatch(1) ps
    show ?thesis by (simp add: frame_inv_def)
  qed
qed

text \<open>A step of the event loop, by the position of the job it resumes.\<close>

lemma resume_cases:
  obtains
    (idle) "resume this env k n s = s"
  | (read) r where "n < length (phases s)" "phases s ! n = AwaitRead r"
      "resume this env k n s = after_segment this env n (after_read this env k n r s)"
  | (put) r where "n < length (phases s)" "phases s ! n = AwaitPut r"
      "resume this env k n s = after_segment this env n (after_put this env n r s)"
  | (commit) r where "n < length (phases s)" "phases s ! n = AwaitCommit r"
      "resume this env k n s = after_segment this env n (after_commit this n r s)"
proof (cases "n < length (phases s)")
  case False
  with idle show ?thesis by (simp add: resume_def)
next
  case True
  then show ?thesis
  proof (cases "phases s ! n")
    case NotStarted
    with True idle show ?thesis by (simp add: resume_def)
  next
    case (AwaitRead r)
    with True read [of r] show ?thesis by (simp add: resume_def)
  next
    case (AwaitPut r)
    with True put [of r] show ?thesis by (simp add: resume_def)
  next
    case (AwaitCommit r)
    with True commit [of r] show ?thesis by (simp add: resume_def)
  next
    case Returned
    with True idle show ?thesis by (simp add: resume_def)
  next
    case (Caught site)
    with True idle show ?thesis by (simp add: resume_def)
  qed
qed

lemma frame_inv_resume:
  assumes f: "frame_inv this env k N N s" and ok: "\<not> identifier_throws this env"
  shows "frame_inv this env k N N (resume this env k n s)"
proof (cases rule: resume_cases [of this env k n s])
  case idle
  with f show ?thesis by simp
next
  case (read r)
  from read(1) frame_invD(3) [OF f] have n: "n < N" by simp
  from after_segment_frame [OF f n _ seg_frame_after_read [OF f n read(2)] ok] read(2,3)
  show ?thesis by simp
next
  case (put r)
  from put(1) frame_invD(3) [OF f] have n: "n < N" by simp
  from after_segment_frame [OF f n _ seg_frame_after_put [OF f n put(2)] ok] put(2,3)
  show ?thesis by simp
next
  case (commit r)
  from commit(1) frame_invD(3) [OF f] have n: "n < N" by simp
  from after_segment_frame [OF f n _ seg_frame_after_commit [OF f n commit(2)] ok] commit(2,3)
  show ?thesis by simp
qed

lemma frame_inv_run:
  assumes "frame_inv this env k N N s" and ok: "\<not> identifier_throws this env"
  shows "frame_inv this env k N N (run this env k schedule s)"
  using assms(1)
proof (induction schedule arbitrary: s)
  case Nil
  then show ?case by (simp add: run_def)
next
  case (Cons n schedule)
  from Cons.IH [OF frame_inv_resume [OF Cons.prems ok]] show ?case by (simp add: run_def)
qed

lemma reachable_frame:
  assumes "start this env = Some s0" and "s = run this env k schedule s0"
    and ok: "\<not> identifier_throws this env"
  shows "jobs_of (totalBlocks this) = Some (length (phases s))"
    and "frame_inv this env k (length (phases s)) (length (phases s)) s"
proof -
  from frame_inv_start [OF assms(1) ok, of k] obtain N where j: "jobs_of (totalBlocks this) = Some N"
    and f: "frame_inv this env k N N s0" by blast
  from frame_inv_run [OF f ok, of schedule] assms(2) have r: "frame_inv this env k N N s" by simp
  from frame_invD(3) [OF r] have "length (phases s) = N" .
  with j r show "jobs_of (totalBlocks this) = Some (length (phases s))"
    "frame_inv this env k (length (phases s)) (length (phases s)) s" by simp_all
qed

section \<open>The counter, the commit and the promise: positive sizes, computable identifiers\<close>

text \<open>
  With a positive file size and block size the counter reaches zero exactly when the last
  job passes its transfer. The lemmas \<open>counting_...\<close> say what each kind of segment does
  to the counting invariant; the rest lifts them to steps and runs as before.
\<close>

lemma counting_no_success:
  assumes "counting_inv this N xs rem tr pr a" and "n < N" and "xs ! n \<noteq> Returned"
  shows "successes tr = []"
  using assms all_returned_nth [of xs n] by (auto simp: counting_inv_def)

lemma counting_not_passed:
  assumes "counting_inv this N xs rem tr pr a" and "n < N" and "\<not> passed (xs ! n)"
  shows "length (filter passed xs) < N" and "commits tr = 0"
    and "length (filter committing xs) = 0" and "successes tr = []"
proof -
  from assms have l: "length xs = N" by (simp add: counting_inv_def)
  with assms(2,3) show p: "length (filter passed xs) < N" using count_less [of n xs passed] by simp
  with assms(1) show c: "commits tr = 0" by (simp add: counting_inv_def)
  with assms(1) show "length (filter committing xs) = 0" "successes tr = []"
    by (simp_all add: counting_inv_def)
qed

lemma counting_start:
  assumes "counting_inv this N xs rem tr pr a" and "m < N" and "xs ! m = NotStarted"
  shows "counting_inv this N (xs[m := AwaitRead r]) rem (tr @ [Call_readBlock f t]) pr a"
proof -
  from assms have l: "m < length xs" by (simp add: counting_inv_def)
  from assms have s: "successes tr = []" using counting_no_success [of this N xs rem tr pr a m] by simp
  from assms(1) l assms(3) s show ?thesis
    by (simp add: counting_inv_def count_same errors_append successes_append commits_append commits_Cons commits_Nil
        no_commit_after_error_snoc)
qed

lemma counting_read_ok:
  assumes "counting_inv this N xs rem tr pr a" and "n < N" and "xs ! n = AwaitRead r"
  shows "counting_inv this N (xs[n := AwaitPut r']) rem (tr @ [Call_putBlock u d b]) pr a'"
proof -
  from assms have l: "n < length xs" by (simp add: counting_inv_def)
  from assms have s: "successes tr = []" using counting_no_success [of this N xs rem tr pr a n] by simp
  from assms(1) l assms(3) s show ?thesis
    by (simp add: counting_inv_def count_same errors_append successes_append commits_append commits_Cons commits_Nil
        no_commit_after_error_snoc)
qed

lemma counting_fail_early:
  assumes "counting_inv this N xs rem tr pr a" and "n < N" and "\<not> passed (xs ! n)" and "\<not> caught (xs ! n)"
    and "site \<noteq> InCommit"
  shows "counting_inv this N (xs[n := Caught site]) rem (tr @ [OnError e]) (reject e pr) a'"
proof -
  from assms have l: "n < length xs" by (simp add: counting_inv_def)
  from counting_not_passed [OF assms(1-3)] have s: "successes tr = []" by simp
  have np: "\<not> passed (Caught site)" "\<not> committing (Caught site)" using assms(5) by (cases site; simp)+
  have nc: "\<not> committing (xs ! n)" using assms(3) by (cases "xs ! n" rule: committing.cases) simp_all
  from assms(1) l s show ?thesis
    by (simp add: counting_inv_def count_same [OF l] count_add [OF l] np nc assms(3,4) errors_append successes_append
        commits_append commits_Cons commits_Nil no_commit_after_error_snoc expected_promise_reject)
qed

lemma counting_commit_facts:
  assumes "counting_inv this N xs rem tr pr a" and "n < N" and "xs ! n = AwaitCommit r"
    and "well_planned this N"
  shows "rem = 0" and "commits tr = 1" and "length (filter committing xs) = 1"
    and "successes tr = []" and "length (filter passed xs) = N"
proof -
  from assms have l: "n < length xs" by (simp add: counting_inv_def)
  have "0 < length (filter committing xs)" by (rule count_pos [OF l]) (simp add: assms(3))
  then have cp: "1 \<le> length (filter committing xs)" by linarith
  from assms(1) have "length (filter committing xs) \<le> commits tr" by (simp add: counting_inv_def)
  with cp have c: "1 \<le> commits tr" by linarith
  from assms(1) have "commits tr = (if length (filter passed xs) = N then 1 else 0)"
    by (simp add: counting_inv_def)
  with c show p: "length (filter passed xs) = N" by (simp split: if_splits)
  with assms(1) show c1: "commits tr = 1" by (simp add: counting_inv_def)
  from assms(1) have "length (filter committing xs) + length (successes tr) = commits tr"
    by (simp add: counting_inv_def)
  with c1 cp have "length (filter committing xs) = 1 \<and> length (successes tr) = 0" by linarith
  then show "length (filter committing xs) = 1" "successes tr = []" by simp_all
  from assms(1,4) p show "rem = 0" by (simp add: counting_inv_def well_planned_def)
qed

lemma counting_commit_fail:
  assumes "counting_inv this N xs rem tr pr a" and "n < N" and "xs ! n = AwaitCommit r"
    and "well_planned this N"
  shows "counting_inv this N (xs[n := Caught InCommit]) rem (tr @ [OnError e]) (reject e pr) a'"
proof -
  from assms have l: "n < length xs" by (simp add: counting_inv_def)
  from counting_commit_facts [OF assms] have s: "successes tr = []" by simp
  from assms(1) l s assms(3) show ?thesis
    by (simp add: counting_inv_def count_same [OF l] count_add [OF l] errors_append successes_append
        commits_append commits_Cons commits_Nil no_commit_after_error_snoc expected_promise_reject)
qed

lemma counting_commit_ok:
  assumes "counting_inv this N xs rem tr pr a" and "n < N" and "xs ! n = AwaitCommit r"
    and "well_planned this N"
  shows "counting_inv this N (xs[n := Returned]) rem (tr @ [OnProgress k t f, OnSuccess a]) (resolve None pr) a"
proof -
  let ?xs = "xs[n := Returned]"
  from assms have l: "n < length xs" and L: "length xs = N" by (simp_all add: counting_inv_def)
  note f = counting_commit_facts [OF assms]
  have p: "length (filter passed ?xs) = N" using f(5) assms(3) by (simp add: count_same [OF l])
  have "Suc (length (filter committing ?xs)) = length (filter committing xs)"
    using assms(3) by (intro count_del [OF l]) simp_all
  with f(3) have c: "length (filter committing ?xs) = 0" by simp
  have all: "x = Returned" if "x \<in> set ?xs" for x
    using that p c L count_all [of passed ?xs x] count_none [of committing ?xs x]
    by (simp add: passed_not_committing)
  then have r: "filter (\<lambda>p. p \<noteq> Returned) ?xs = []" by (simp add: filter_empty_conv)
  have "\<not> caught x" if "x \<in> set ?xs" for x using all [OF that] by simp
  then have "filter caught ?xs = []" by (simp add: filter_empty_conv)
  then have "length (filter caught ?xs) = 0" by simp
  moreover have "length (filter caught ?xs) = length (filter caught xs)"
    using assms(3) by (simp add: count_same [OF l])
  ultimately have "length (errors tr) = 0" using assms(1) by (simp add: counting_inv_def)
  then have e: "errors tr = []" by simp
  from assms(1) e f(2,4) p c r show ?thesis
    by (simp add: counting_inv_def errors_append successes_append commits_append commits_Cons commits_Nil
        no_commit_after_error_append count_same [OF l] assms(3))
qed

lemma counting_put_ok_commit:
  assumes "counting_inv this N xs rem tr pr a" and "n < N" and "xs ! n = AwaitPut r"
    and "well_planned this N" and "rem - blockSize this \<le> 0"
  shows "counting_inv this N (xs[n := AwaitCommit r']) 0 (tr @ [Call_putBlockList u ids t]) pr a"
    and "length (filter passed xs) = N - 1"
proof -
  from assms have l: "n < length xs" and L: "length xs = N" by (simp_all add: counting_inv_def)
  have np: "\<not> passed (xs ! n)" using assms(3) by simp
  note f = counting_not_passed [OF assms(1,2) np]
  let ?k = "length (filter passed xs)"
  from assms(1) have rem: "rem = max 0 (fileSize this - int ?k * blockSize this)"
    by (simp add: counting_inv_def)
  from assms(4) have b: "0 < blockSize this" and lo: "(int N - 1) * blockSize this < fileSize this"
    by (simp_all add: well_planned_def)
  from rem assms(5) have "fileSize this - int ?k * blockSize this \<le> blockSize this" by simp
  then have "fileSize this \<le> (int ?k + 1) * blockSize this" by (simp add: algebra_simps)
  with lo have "(int N - 1) * blockSize this < (int ?k + 1) * blockSize this" by simp
  with b have "int N - 1 < int ?k + 1" by (simp add: mult_less_cancel_right)
  with f(1) show k: "?k = N - 1" by simp
  have p: "length (filter passed (xs[n := AwaitCommit r'])) = Suc ?k"
    using np by (intro count_add [OF l]) simp_all
  with k assms(2) have p': "length (filter passed (xs[n := AwaitCommit r'])) = N" by simp
  have c: "length (filter committing (xs[n := AwaitCommit r'])) = Suc (length (filter committing xs))"
    using assms(3) by (intro count_add [OF l]) simp_all
  have e: "errors tr = []"
  proof -
    have "\<not> caught x" if "x \<in> set xs" for x
    proof
      assume cx: "caught x"
      from that obtain i where i: "i < length xs" "xs ! i = x" by (auto simp: in_set_conv_nth)
      have "i \<noteq> n" using i cx assms(3) by auto
      have "passed x"
      proof (rule ccontr)
        assume "\<not> passed x"
        with i have npi: "\<not> passed (xs[n := AwaitCommit r'] ! i)" using \<open>i \<noteq> n\<close> by simp
        from p' L have "length (filter passed (xs[n := AwaitCommit r'])) = length (xs[n := AwaitCommit r'])"
          by simp
        from count_all [OF this, of "xs[n := AwaitCommit r'] ! i"] i npi show False by simp
      qed
      with cx have "committing x" by (cases x rule: passed.cases) simp_all
      with f(3) that show False using count_none [of committing xs x] by simp
    qed
    then have "filter caught xs = []" by (simp add: filter_empty_conv)
    with assms(1) show ?thesis by (simp add: counting_inv_def)
  qed
  from assms(1) l f p' c e assms(3)
  show "counting_inv this N (xs[n := AwaitCommit r']) 0 (tr @ [Call_putBlockList u ids t]) pr a"
    using b assms(4)
    by (simp add: counting_inv_def well_planned_def count_same [OF l] errors_append successes_append
        commits_append commits_Cons commits_Nil no_commit_after_error_snoc)
qed

lemma counting_put_ok_return:
  assumes "counting_inv this N xs rem tr pr a" and "n < N" and "xs ! n = AwaitPut r"
    and "well_planned this N" and "0 < rem - blockSize this"
  shows "counting_inv this N (xs[n := Returned]) (rem - blockSize this) (tr @ [OnProgress k t f]) pr a"
proof -
  from assms have l: "n < length xs" and L: "length xs = N" by (simp_all add: counting_inv_def)
  have np: "\<not> passed (xs ! n)" using assms(3) by simp
  note f = counting_not_passed [OF assms(1,2) np]
  let ?k = "length (filter passed xs)"
  from assms(1) have rem: "rem = max 0 (fileSize this - int ?k * blockSize this)"
    by (simp add: counting_inv_def)
  from assms(4) have b: "0 < blockSize this" and up: "fileSize this \<le> int N * blockSize this"
    by (simp_all add: well_planned_def)
  from rem assms(5) b have r: "rem = fileSize this - int ?k * blockSize this" by (simp add: max_def split: if_splits)
  with assms(5) have "(int ?k + 1) * blockSize this < fileSize this" by (simp add: algebra_simps)
  with up have "(int ?k + 1) * blockSize this < int N * blockSize this" by simp
  with b have k: "Suc ?k < N" by (simp add: mult_less_cancel_right)
  have p: "length (filter passed (xs[n := Returned])) = Suc ?k"
    using np by (intro count_add [OF l]) simp_all
  from r assms(5) have rr: "rem - blockSize this = max 0 (fileSize this - int (Suc ?k) * blockSize this)"
    by (simp add: algebra_simps)
  from assms(1) l f p k rr assms(3) show ?thesis
    by (simp add: counting_inv_def count_same [OF l] errors_append successes_append
        commits_append commits_Cons commits_Nil no_commit_after_error_snoc del: of_nat_Suc)
qed

lemma all_started:
  assumes "pool_inv this env N N s" and "\<And>i. i < N \<Longrightarrow> phases s ! i \<noteq> NotStarted"
  shows "blockIDList s = map (the_blockID this env) [0..<N]"
proof -
  note d = pool_invD [OF assms(1)]
  have "length (blockIDList s) = N"
  proof (rule ccontr)
    assume "length (blockIDList s) \<noteq> N"
    with d(3) have m: "length (blockIDList s) < N" by simp
    from d(6) [OF m] assms(2) [OF m] show False by simp
  qed
  with d(5) show ?thesis by simp
qed

lemma counter_zero_iff:
  assumes "counting_inv this N xs rem tr pr a" and "well_planned this N"
  shows "rem = 0 \<longleftrightarrow> length (filter passed xs) = N"
    and "length (filter passed xs) = N \<longleftrightarrow> (\<forall>p\<in>set xs. passed p)"
    and "commits tr = (if rem = 0 then 1 else 0)"
proof -
  let ?k = "length (filter passed xs)"
  from assms(1) have L: "length xs = N"
    and r: "rem = max 0 (fileSize this - int ?k * blockSize this)"
    and c: "commits tr = (if ?k = N then 1 else 0)" by (simp_all add: counting_inv_def)
  from assms(2) have b: "0 < blockSize this" and lo: "(int N - 1) * blockSize this < fileSize this"
    and up: "fileSize this \<le> int N * blockSize this" by (simp_all add: well_planned_def)
  have kN: "?k \<le> N" using L length_filter_le [of passed xs] by simp
  show z: "rem = 0 \<longleftrightarrow> ?k = N"
  proof
    assume "rem = 0"
    with r have "fileSize this \<le> int ?k * blockSize this" by simp
    with lo have "(int N - 1) * blockSize this < int ?k * blockSize this" by simp
    with b have "int N - 1 < int ?k" by (simp add: mult_less_cancel_right)
    with kN show "?k = N" by simp
  next
    assume "?k = N"
    with r up show "rem = 0" by simp
  qed
  show "?k = N \<longleftrightarrow> (\<forall>p\<in>set xs. passed p)"
  proof
    assume "?k = N"
    with L have "length (filter passed xs) = length xs" by simp
    then show "\<forall>p\<in>set xs. passed p" using count_all [of passed xs] by blast
  next
    assume "\<forall>p\<in>set xs. passed p"
    then have "filter passed xs = xs" by simp
    with L show "?k = N" by simp
  qed
  from c z show "commits tr = (if rem = 0 then 1 else 0)" by simp
qed

lemma core_invD:
  assumes "core_inv this env N s"
  shows "counting_inv this N (phases s) (this_totalRemainingBytes s) (trace s) (promise s)
           (artifacts s)"
    and "set (filter is_commit (trace s)) \<subseteq> {expected_commit this env N}"
    and "length (phases s) = N"
  using assms by (simp_all add: core_inv_def counting_inv_def)

lemma core_inv_job_begun:
  assumes "core_inv this env N s" and "m < N" and "phases s ! m = NotStarted"
  shows "core_inv this env N (job_begun this env m s)"
proof -
  note d = core_invD [OF assms(1)]
  from counting_start [OF d(1) assms(2,3)] d(2)
  show ?thesis by (simp add: core_inv_def job_begun_def)
qed

lemma core_inv_pool:
  assumes "core_inv this env N s"
  shows "core_inv this env N (s\<lparr>queue := q\<rparr>)" and "core_inv this env N (s\<lparr>running := c\<rparr>)"
    and "core_inv this env N (s\<lparr>queue := q, running := c\<rparr>)"
  using assms by (simp_all add: core_inv_def)

lemma core_inv_pool_run:
  assumes "core_inv this env N s" and "pool_inv this env N j s" and "j < N"
    and ok: "\<not> identifier_throws this env"
  shows "core_inv this env N (pool_run this env j s)"
proof (cases "int (running s) < simultaneousUploads this")
  case True
  from pool_inv_start_now(2) [OF assms(2,3) True]
  have "phases (s\<lparr>running := Suc (running s)\<rparr>) ! j = NotStarted" by simp
  from core_inv_job_begun [OF core_inv_pool(2) [OF assms(1)] assms(3) this] True
  show ?thesis by (simp add: pool_run_returns [OF ok])
next
  case False
  with core_inv_pool(1) [OF assms(1)] show ?thesis by (simp add: pool_run_returns [OF ok])
qed

lemma core_inv_initial:
  assumes "well_planned this N" and "totalRemainingBytes this = fileSize this"
  shows "core_inv this env N (initial_state this N)"
proof -
  from assms(1) have N: "0 < N" and b: "0 < blockSize this"
    and lo: "(int N - 1) * blockSize this < fileSize this" by (simp_all add: well_planned_def)
  from N b have "0 \<le> (int N - 1) * blockSize this" by simp
  with lo have "0 \<le> fileSize this" by simp
  with N assms(2) show ?thesis
    by (simp add: core_inv_def counting_inv_def initial_state_def filter_replicate_False
        commits_Nil)
qed

lemma upload_inv_submitted:
  assumes "well_planned this N" and "totalRemainingBytes this = fileSize this" and "j \<le> N"
    and ok: "\<not> identifier_throws this env"
  shows "upload_inv this env k N j (fold (pool_run this env) [0..<j] (initial_state this N))"
  using assms(3)
proof (induction j)
  case 0
  from core_inv_initial [OF assms(1,2)] frame_inv_initial show ?case
    by (simp add: upload_inv_def)
next
  case (Suc j)
  let ?s = "fold (pool_run this env) [0..<j] (initial_state this N)"
  from Suc have f: "frame_inv this env k N j ?s" and c: "core_inv this env N ?s" and j: "j < N"
    by (simp_all add: upload_inv_def)
  from frame_inv_pool_run [OF f j ok] core_inv_pool_run [OF c frame_invD(1) [OF f] j ok]
  show ?case by (simp add: upload_inv_def)
qed

lemma upload_inv_start:
  assumes "well_planned this N" and "totalRemainingBytes this = fileSize this"
    and "totalBlocks this = Fin (int N)" and "start this env = Some s0"
    and ok: "\<not> identifier_throws this env"
  shows "upload_inv this env k N N s0"
proof -
  from assms(3,4) have "s0 = fold (pool_run this env) [0..<N] (initial_state this N)"
    by (simp add: start_def jobs_of_def)
  with upload_inv_submitted [OF assms(1,2) _ ok, of N k] show ?thesis by simp
qed

lemma seg_after_read:
  assumes "core_inv this env N s" and "n < N" and "phases s ! n = AwaitRead r"
  shows "seg_ok this env N n s (after_read this env k n r s)"
proof -
  note d = core_invD [OF assms(1)]
  have np: "\<not> passed (phases s ! n)" "\<not> caught (phases s ! n)" using assms(3) by simp_all
  show ?thesis
  proof (cases r)
    case (Inl e)
    from counting_fail_early [OF d(1) assms(2) np, of InRead e "artifacts s"] d(2) Inl
    show ?thesis by (simp add: seg_ok_def core_inv_def after_read_def catch_error_def)
  next
    case (Inr data)
    show ?thesis
    proof (cases k)
      case None
      from counting_read_ok [OF d(1) assms(2,3)] d(2) Inr None
      show ?thesis by (simp add: seg_ok_def core_inv_def after_read_def Let_def)
    next
      case (Some key)
      show ?thesis
      proof (cases "encryptWithKeyUsingArtefacts env key data AES_GCM (randomBytes env n 12)")
        case (Inl e)
        from counting_fail_early [OF d(1) assms(2) np, of InEncrypt e] d(2) Inr Some Inl
        show ?thesis by (simp add: seg_ok_def core_inv_def after_read_def catch_error_def Let_def)
      next
        case (Inr ct)
        obtain encrypted tag where ct: "ct = (encrypted, tag)" by (cases ct)
        from counting_read_ok [OF d(1) assms(2,3)] d(2) \<open>r = Inr data\<close> Some Inr ct
        show ?thesis by (simp add: seg_ok_def core_inv_def after_read_def Let_def)
      qed
    qed
  qed
qed

lemma seg_after_put:
  assumes "core_inv this env N s" and "pool_inv this env N N s" and "n < N"
    and "phases s ! n = AwaitPut r" and "well_planned this N"
  shows "seg_ok this env N n s (after_put this env n r s)"
proof -
  note d = core_invD [OF assms(1)]
  have np: "\<not> passed (phases s ! n)" "\<not> caught (phases s ! n)" using assms(4) by simp_all
  show ?thesis
  proof (cases r)
    case (Inl e)
    from counting_fail_early [OF d(1) assms(3) np, of InPut e "artifacts s"] d(2) Inl
    show ?thesis by (simp add: seg_ok_def core_inv_def after_put_def catch_error_def)
  next
    case (Inr u)
    show ?thesis
    proof (cases "this_totalRemainingBytes s - blockSize this \<le> 0")
      case True
      let ?r = "putBlockList env (url this) (blockIDList s) (fileType this)"
      note t = counting_put_ok_commit [OF d(1) assms(3,4,5) True]
      have "phases s ! i \<noteq> NotStarted" if i: "i < N" for i
      proof (cases "i = n")
        case True
        with assms(4) show ?thesis by simp
      next
        case False
        have "length (filter passed ((phases s)[n := AwaitCommit ?r]))
            = length ((phases s)[n := AwaitCommit ?r])"
          using t(2) np(1) d(3) assms(3) count_add [of n "phases s" passed "AwaitCommit ?r"]
          by simp
        from count_all_nth [OF this, of i] i d(3) False
        have "passed (phases s ! i)" by simp
        then show ?thesis by auto
      qed
      with assms(2) have "blockIDList s = map (the_blockID this env) [0..<N]"
        by (rule all_started)
      then have e: "Call_putBlockList (url this) (blockIDList s) (fileType this)
          = expected_commit this env N"
        by (simp add: expected_commit_def)
      from t(1) [of ?r "url this" "blockIDList s" "fileType this"] d(2) e Inr True
      show ?thesis by (auto simp: seg_ok_def core_inv_def after_put_def Let_def)
    next
      case False
      then have pos: "0 < this_totalRemainingBytes s - blockSize this" by simp
      from counting_put_ok_return [OF d(1) assms(3,4,5) pos] d(2) Inr False
      show ?thesis
        by (simp add: seg_ok_def core_inv_def after_put_def report_and_return_def Let_def)
    qed
  qed
qed

lemma seg_after_commit:
  assumes "core_inv this env N s" and "n < N" and "phases s ! n = AwaitCommit r"
    and "well_planned this N"
  shows "seg_ok this env N n s (after_commit this n r s)"
proof -
  note d = core_invD [OF assms(1)]
  note f = counting_commit_facts [OF d(1) assms(2,3,4)]
  show ?thesis
  proof (cases r)
    case (Inl e)
    from counting_commit_fail [OF d(1) assms(2,3,4), of e "artifacts s"] d(2) Inl
    show ?thesis by (simp add: seg_ok_def core_inv_def after_commit_def catch_error_def)
  next
    case (Inr u)
    from counting_commit_ok [OF d(1) assms(2,3,4)] d(2) Inr f(1)
    show ?thesis
      by (simp add: seg_ok_def core_inv_def after_commit_def report_and_return_def Let_def)
  qed
qed

lemma after_segment_core:
  assumes "frame_inv this env k N N s" and "n < N" and "phases s ! n \<noteq> NotStarted"
    and "seg_frame this env k N n s ps" and "seg_ok this env N n s ps"
    and ok: "\<not> identifier_throws this env"
  shows "core_inv this env N (after_segment this env n ps)"
proof -
  obtain p' s' where ps: "ps = (p', s')" by (cases ps)
  from assms(4) ps have sf: "seg_frame this env k N n s (p', s')" by simp
  from assms(5) ps have c: "core_inv this env N (s'\<lparr>phases := (phases s)[n := p']\<rparr>)"
    by (simp add: seg_ok_def)
  from assms(1-3) sf ok show ?thesis
  proof (cases rule: after_segment_cases)
    case stay
    with c ps show ?thesis by simp
  next
    case free
    with core_inv_pool(2) [OF c, of "running s - 1"] ps show ?thesis by simp
  next
    case (dispatch m)
    have "phases (s'\<lparr>phases := (phases s)[n := p'], queue := [Suc m..<N]\<rparr>) ! m = NotStarted"
      using dispatch(5,6) by simp
    from core_inv_job_begun [OF core_inv_pool(1) [OF c, of "[Suc m..<N]"] dispatch(4) this]
      dispatch(1) ps
    show ?thesis by simp
  qed
qed

lemma upload_inv_resume:
  assumes "upload_inv this env k N N s" and "well_planned this N"
    and ok: "\<not> identifier_throws this env"
  shows "upload_inv this env k N N (resume this env k n s)"
proof -
  from assms(1) have f: "frame_inv this env k N N s" and c: "core_inv this env N s"
    by (simp_all add: upload_inv_def)
  note p = frame_invD(1) [OF f]
  have "core_inv this env N (resume this env k n s)"
  proof (cases rule: resume_cases [of this env k n s])
    case idle
    with c show ?thesis by simp
  next
    case (read r)
    from read(1) frame_invD(3) [OF f] have n: "n < N" by simp
    from after_segment_core [OF f n _ seg_frame_after_read [OF f n read(2)]
        seg_after_read [OF c n read(2)] ok] read(2,3)
    show ?thesis by simp
  next
    case (put r)
    from put(1) frame_invD(3) [OF f] have n: "n < N" by simp
    from after_segment_core [OF f n _ seg_frame_after_put [OF f n put(2)]
        seg_after_put [OF c p n put(2) assms(2)] ok] put(2,3)
    show ?thesis by simp
  next
    case (commit r)
    from commit(1) frame_invD(3) [OF f] have n: "n < N" by simp
    from after_segment_core [OF f n _ seg_frame_after_commit [OF f n commit(2)]
        seg_after_commit [OF c n commit(2) assms(2)] ok] commit(2,3)
    show ?thesis by simp
  qed
  with frame_inv_resume [OF f ok, of n] show ?thesis by (simp add: upload_inv_def)
qed

lemma upload_inv_run:
  assumes "upload_inv this env k N N s" and "well_planned this N"
    and ok: "\<not> identifier_throws this env"
  shows "upload_inv this env k N N (run this env k schedule s)"
  using assms(1)
proof (induction schedule arbitrary: s)
  case Nil
  then show ?case by (simp add: run_def)
next
  case (Cons n schedule)
  from Cons.IH [OF upload_inv_resume [OF Cons.prems assms(2) ok]] show ?case by (simp add: run_def)
qed

lemma constructor_well_planned:
  assumes "AzureBlockUpload pf url_arg file_arg opts = Inr this"
    and "0 < fileSize this" and "0 < blockSize this"
  shows "\<exists>N. well_planned this N \<and> totalBlocks this = Fin (int N)
           \<and> totalRemainingBytes this = fileSize this"
  using constructor_plan [OF assms] assms(3) by (auto simp: well_planned_def)

lemma reachable_facts:
  assumes "AzureBlockUpload pf url_arg file_arg opts = Inr this"
    and "0 < fileSize this" and "0 < blockSize this" and "start this env = Some s0"
    and "s = run this env k schedule s0" and ok: "\<not> identifier_throws this env"
  shows "well_planned this (length (phases s))"
    and "totalBlocks this = Fin (int (length (phases s)))"
    and "upload_inv this env k (length (phases s)) (length (phases s)) s"
    and "counting_inv this (length (phases s)) (phases s) (this_totalRemainingBytes s) (trace s)
           (promise s) (artifacts s)"
    and "set (filter is_commit (trace s)) \<subseteq> {expected_commit this env (length (phases s))}"
proof -
  from constructor_well_planned [OF assms(1-3)] obtain N where w: "well_planned this N"
    and t: "totalBlocks this = Fin (int N)" and r: "totalRemainingBytes this = fileSize this"
    by blast
  from upload_inv_run [OF upload_inv_start [OF w r t assms(4) ok] w ok, of k schedule] assms(5)
  have i: "upload_inv this env k N N s" by simp
  then have "length (phases s) = N" by (simp add: upload_inv_def frame_inv_def pool_inv_def)
  with w t i show "well_planned this (length (phases s))"
    "totalBlocks this = Fin (int (length (phases s)))"
    "upload_inv this env k (length (phases s)) (length (phases s)) s"
    "counting_inv this (length (phases s)) (phases s) (this_totalRemainingBytes s) (trace s)
           (promise s) (artifacts s)"
    "set (filter is_commit (trace s)) \<subseteq> {expected_commit this env (length (phases s))}"
    by (simp_all add: upload_inv_def core_inv_def)
qed

section \<open>Failures and the errors passed on: computable identifiers\<close>

text \<open>
  When the identifiers can be computed, a job fails before the counter only where its
  collaborators fail: the result a job awaits is the one the collaborator gave for its
  block, a failed result takes the job to its \<open>catch\<close> block with that error, and nothing
  else does. The lemmas follow the segments as before.
\<close>

lemma block_failure_returns:
  assumes "\<not> identifier_throws this env"
  shows "block_failure this env k n =
     (case readBlock env (the_file this) (block_from this n) (block_to this n) of
        Inl e \<Rightarrow> Some (InRead, e)
      | Inr data \<Rightarrow>
          (case k of
             None \<Rightarrow> transfer_failure this env data (the_blockID this env n)
           | Some key \<Rightarrow>
               (case encryptWithKeyUsingArtefacts env key data AES_GCM (randomBytes env n 12) of
                  Inl e \<Rightarrow> Some (InEncrypt, e)
                | Inr ct \<Rightarrow> transfer_failure this env (fst ct) (the_blockID this env n))))"
  by (simp add: block_failure_def blockID_returns [OF assms])

lemma fail_at_mono: "fail_at this env k tr p n \<Longrightarrow> fail_at this env k (tr @ tr') p n"
  by (cases p) (auto simp: fail_at_def errors_append)

lemma failure_invD:
  assumes "failure_inv this env k N xs tr"
  shows "length xs = N" and "m < N \<Longrightarrow> fail_at this env k tr (xs ! m) m"
    and "e \<in> set (errors tr) \<Longrightarrow> \<exists>m<N. \<exists>site. xs ! m = Caught site
            \<and> (site = InCommit \<or> block_failure this env k m = Some (site, e))"
  using assms by (simp_all add: failure_inv_def)

lemma failure_step:
  assumes "failure_inv this env k N xs tr" and "n < N" and "\<not> caught (xs ! n)"
    and "fail_at this env k (tr @ tr') p n"
    and "\<And>e. e \<in> set (errors tr') \<Longrightarrow>
           \<exists>site. p = Caught site \<and> (site = InCommit \<or> block_failure this env k n = Some (site, e))"
  shows "failure_inv this env k N (xs[n := p]) (tr @ tr')"
proof -
  note d = failure_invD [OF assms(1)]
  have 1: "fail_at this env k (tr @ tr') (xs[n := p] ! m) m" if "m < N" for m
  proof (cases "m = n")
    case True
    with assms(2,4) d(1) show ?thesis by simp
  next
    case False
    with fail_at_mono [OF d(2) [OF that]] show ?thesis by simp
  qed
  have 2: "\<exists>m<N. \<exists>site. xs[n := p] ! m = Caught site
            \<and> (site = InCommit \<or> block_failure this env k m = Some (site, e))"
    if "e \<in> set (errors (tr @ tr'))" for e
  proof (cases "e \<in> set (errors tr)")
    case True
    from d(3) [OF True] obtain m site where m: "m < N" "xs ! m = Caught site"
      "site = InCommit \<or> block_failure this env k m = Some (site, e)" by blast
    with assms(3) have "m \<noteq> n" by auto
    then have "xs[n := p] ! m = xs ! m" by simp
    with m show ?thesis by metis
  next
    case False
    with that have "e \<in> set (errors tr')" by (simp add: errors_append)
    from assms(5) [OF this] obtain site where s: "p = Caught site"
      "site = InCommit \<or> block_failure this env k n = Some (site, e)" by blast
    from assms(2) d(1) s(1) have "xs[n := p] ! n = Caught site" by simp
    with assms(2) s(2) show ?thesis by metis
  qed
  from d(1) 1 2 show ?thesis by (simp add: failure_inv_def)
qed

lemma failure_after_read:
  assumes "failure_inv this env k N (phases s) (trace s)" and "n < N"
    and "phases s ! n = AwaitRead r" and ok: "\<not> identifier_throws this env"
  shows "failure_inv this env k N ((phases s)[n := fst (after_read this env k n r s)])
           (trace (snd (after_read this env k n r s)))"
proof -
  from failure_invD(2) [OF assms(1,2)] assms(3)
  have r: "readBlock env (the_file this) (block_from this n) (block_to this n) = r"
    by (simp add: fail_at_def)
  have nc: "\<not> caught (phases s ! n)" using assms(3) by simp
  note b = block_failure_returns [OF ok, of k n]
  show ?thesis
  proof (cases r)
    case (Inl e)
    with r b have bf: "block_failure this env k n = Some (InRead, e)" by simp
    have "failure_inv this env k N ((phases s)[n := Caught InRead]) (trace s @ [OnError e])"
      by (rule failure_step [OF assms(1,2) nc]) (simp_all add: fail_at_def bf errors_append)
    with Inl show ?thesis by (simp add: after_read_def catch_error_def)
  next
    case (Inr data)
    show ?thesis
    proof (cases k)
      case None
      let ?b = "the_blockID this env n"
      from r Inr None b
      have bf: "block_failure this env None n = transfer_failure this env data ?b" by simp
      have "failure_inv this env None N ((phases s)[n := AwaitPut (putBlock env (url this) data ?b)])
          (trace s @ [Call_putBlock (url this) data ?b])"
        by (rule failure_step [OF assms(1) [unfolded None] assms(2) nc])
           (simp_all add: fail_at_def bf transfer_failure_def)
      with Inr None show ?thesis by (simp add: after_read_def Let_def)
    next
      case (Some key)
      show ?thesis
      proof (cases "encryptWithKeyUsingArtefacts env key data AES_GCM (randomBytes env n 12)")
        case (Inl e)
        with r \<open>r = Inr data\<close> Some b
        have bf: "block_failure this env (Some key) n = Some (InEncrypt, e)" by simp
        have "failure_inv this env (Some key) N ((phases s)[n := Caught InEncrypt])
            (trace s @ [OnError e])"
          by (rule failure_step [OF assms(1) [unfolded Some] assms(2) nc])
             (simp_all add: fail_at_def bf errors_append)
        with \<open>r = Inr data\<close> Some Inl show ?thesis
          by (simp add: after_read_def catch_error_def Let_def)
      next
        case (Inr ct)
        obtain encrypted tag where ct: "ct = (encrypted, tag)" by (cases ct)
        let ?b = "the_blockID this env n"
        from r \<open>r = Inr data\<close> Some Inr ct b
        have bf: "block_failure this env (Some key) n = transfer_failure this env encrypted ?b"
          by simp
        have "failure_inv this env (Some key) N
            ((phases s)[n := AwaitPut (putBlock env (url this) encrypted ?b)])
            (trace s @ [Call_putBlock (url this) encrypted ?b])"
          by (rule failure_step [OF assms(1) [unfolded Some] assms(2) nc])
             (simp_all add: fail_at_def bf transfer_failure_def)
        with \<open>r = Inr data\<close> Some Inr ct show ?thesis by (simp add: after_read_def Let_def)
      qed
    qed
  qed
qed

lemma failure_after_put:
  assumes "failure_inv this env k N (phases s) (trace s)" and "n < N"
    and "phases s ! n = AwaitPut r"
  shows "failure_inv this env k N ((phases s)[n := fst (after_put this env n r s)])
           (trace (snd (after_put this env n r s)))"
proof -
  from failure_invD(2) [OF assms(1,2)] assms(3)
  have bf: "block_failure this env k n = (case r of Inl e \<Rightarrow> Some (InPut, e) | Inr u \<Rightarrow> None)"
    by (simp add: fail_at_def)
  have nc: "\<not> caught (phases s ! n)" using assms(3) by simp
  show ?thesis
  proof (cases r)
    case (Inl e)
    with bf have bf': "block_failure this env k n = Some (InPut, e)" by simp
    have "failure_inv this env k N ((phases s)[n := Caught InPut]) (trace s @ [OnError e])"
      by (rule failure_step [OF assms(1,2) nc]) (simp_all add: fail_at_def bf' errors_append)
    with Inl show ?thesis by (simp add: after_put_def catch_error_def)
  next
    case (Inr u)
    with bf have bf': "block_failure this env k n = None" by simp
    have a: "failure_inv this env k N ((phases s)[n := p]) (trace s @ [ev])"
      if "p = Returned \<or> (\<exists>r'. p = AwaitCommit r')" "\<not> is_error ev" for p ev
    proof (rule failure_step [OF assms(1,2) nc])
      from that(1) show "fail_at this env k (trace s @ [ev]) p n"
        by (auto simp: fail_at_def bf')
      fix e assume "e \<in> set (errors [ev])"
      with that(2) show "\<exists>site. p = Caught site
          \<and> (site = InCommit \<or> block_failure this env k n = Some (site, e))"
        by (cases ev) simp_all
    qed
    show ?thesis
    proof (cases "this_totalRemainingBytes s - blockSize this \<le> 0")
      case True
      with Inr a [of "AwaitCommit (putBlockList env (url this) (blockIDList s) (fileType this))"
          "Call_putBlockList (url this) (blockIDList s) (fileType this)"]
      show ?thesis by (auto simp: after_put_def Let_def)
    next
      case False
      with Inr a [of Returned
          "OnProgress (n + 1) (totalBlocks this) (file_name_of (the_file this))"]
      show ?thesis by (simp add: after_put_def report_and_return_def Let_def)
    qed
  qed
qed

lemma failure_after_commit:
  assumes "failure_inv this env k N (phases s) (trace s)" and "n < N"
    and "phases s ! n = AwaitCommit r"
  shows "failure_inv this env k N ((phases s)[n := fst (after_commit this n r s)])
           (trace (snd (after_commit this n r s)))"
proof -
  from failure_invD(2) [OF assms(1,2)] assms(3)
  have bf: "block_failure this env k n = None" by (simp add: fail_at_def)
  have nc: "\<not> caught (phases s ! n)" using assms(3) by simp
  show ?thesis
  proof (cases r)
    case (Inl e)
    have "failure_inv this env k N ((phases s)[n := Caught InCommit]) (trace s @ [OnError e])"
      by (rule failure_step [OF assms(1,2) nc]) (simp_all add: fail_at_def bf)
    with Inl show ?thesis by (simp add: after_commit_def catch_error_def)
  next
    case (Inr u)
    have a: "failure_inv this env k N ((phases s)[n := Returned]) (trace s @ tr')"
      if "errors tr' = []" for tr'
      by (rule failure_step [OF assms(1,2) nc]) (simp_all add: fail_at_def bf that)
    show ?thesis
    proof (cases "this_totalRemainingBytes s = 0")
      case True
      with Inr a [of "[OnProgress (n + 1) (totalBlocks this) (file_name_of (the_file this)),
          OnSuccess (artifacts s)]"]
      show ?thesis by (simp add: after_commit_def report_and_return_def Let_def)
    next
      case False
      with Inr a [of "[OnProgress (n + 1) (totalBlocks this) (file_name_of (the_file this))]"]
      show ?thesis by (simp add: after_commit_def report_and_return_def Let_def)
    qed
  qed
qed

lemma failure_job_begun:
  assumes "failure_inv this env k N (phases s) (trace s)" and "m < N"
    and "phases s ! m = NotStarted"
  shows "failure_inv this env k N (phases (job_begun this env m s))
           (trace (job_begun this env m s))"
proof -
  have nc: "\<not> caught (phases s ! m)" using assms(3) by simp
  have "failure_inv this env k N
      ((phases s)[m := AwaitRead (readBlock env (the_file this) (block_from this m)
         (block_to this m))])
      (trace s @ [Call_readBlock (block_from this m) (block_to this m)])"
    by (rule failure_step [OF assms(1,2) nc]) (simp_all add: fail_at_def)
  then show ?thesis by (simp add: job_begun_def)
qed

lemma after_segment_failure:
  assumes "frame_inv this env k N N s" and "n < N" and "phases s ! n \<noteq> NotStarted"
    and "seg_frame this env k N n s ps"
    and "failure_inv this env k N ((phases s)[n := fst ps]) (trace (snd ps))"
    and ok: "\<not> identifier_throws this env"
  shows "failure_inv this env k N (phases (after_segment this env n ps))
           (trace (after_segment this env n ps))"
proof -
  obtain p' s' where ps: "ps = (p', s')" by (cases ps)
  from assms(4) ps have sf: "seg_frame this env k N n s (p', s')" by simp
  from assms(5) ps have c: "failure_inv this env k N ((phases s)[n := p']) (trace s')" by simp
  from assms(1-3) sf ok show ?thesis
  proof (cases rule: after_segment_cases)
    case stay
    with c ps show ?thesis by simp
  next
    case free
    with c ps show ?thesis by simp
  next
    case (dispatch m)
    let ?s1 = "s'\<lparr>phases := (phases s)[n := p'], queue := [Suc m..<N]\<rparr>"
    have "failure_inv this env k N (phases ?s1) (trace ?s1)" and "phases ?s1 ! m = NotStarted"
      using c dispatch(5,6) by simp_all
    from failure_job_begun [OF this(1) dispatch(4) this(2)] dispatch(1) ps
    show ?thesis by simp
  qed
qed

lemma failure_inv_resume:
  assumes f: "frame_inv this env k N N s"
    and c: "failure_inv this env k N (phases s) (trace s)"
    and ok: "\<not> identifier_throws this env"
  shows "failure_inv this env k N (phases (resume this env k n s))
           (trace (resume this env k n s))"
proof (cases rule: resume_cases [of this env k n s])
  case idle
  with c show ?thesis by simp
next
  case (read r)
  from read(1) frame_invD(3) [OF f] have n: "n < N" by simp
  from after_segment_failure [OF f n _ seg_frame_after_read [OF f n read(2)]
      failure_after_read [OF c n read(2) ok] ok] read(2,3)
  show ?thesis by simp
next
  case (put r)
  from put(1) frame_invD(3) [OF f] have n: "n < N" by simp
  from after_segment_failure [OF f n _ seg_frame_after_put [OF f n put(2)]
      failure_after_put [OF c n put(2)] ok] put(2,3)
  show ?thesis by simp
next
  case (commit r)
  from commit(1) frame_invD(3) [OF f] have n: "n < N" by simp
  from after_segment_failure [OF f n _ seg_frame_after_commit [OF f n commit(2)]
      failure_after_commit [OF c n commit(2)] ok] commit(2,3)
  show ?thesis by simp
qed

lemma failure_inv_run:
  assumes "frame_inv this env k N N s" and "failure_inv this env k N (phases s) (trace s)"
    and ok: "\<not> identifier_throws this env"
  shows "failure_inv this env k N (phases (run this env k schedule s))
           (trace (run this env k schedule s))"
  using assms(1,2)
proof (induction schedule arbitrary: s)
  case Nil
  then show ?case by (simp add: run_def)
next
  case (Cons n schedule)
  from Cons.IH [OF frame_inv_resume [OF Cons.prems(1) ok]
      failure_inv_resume [OF Cons.prems ok]]
  show ?case by (simp add: run_def)
qed

lemma failure_inv_initial:
  "failure_inv this env k N (phases (initial_state this N)) (trace (initial_state this N))"
  by (simp add: failure_inv_def fail_at_def initial_state_def)

lemma failure_inv_pool_run:
  assumes "frame_inv this env k N j s" and "failure_inv this env k N (phases s) (trace s)"
    and "j < N" and ok: "\<not> identifier_throws this env"
  shows "failure_inv this env k N (phases (pool_run this env j s))
           (trace (pool_run this env j s))"
proof (cases "int (running s) < simultaneousUploads this")
  case True
  let ?s1 = "s\<lparr>running := Suc (running s)\<rparr>"
  from pool_inv_start_now(2) [OF frame_invD(1) [OF assms(1)] assms(3) True]
  have "phases ?s1 ! j = NotStarted" by simp
  moreover from assms(2) have "failure_inv this env k N (phases ?s1) (trace ?s1)" by simp
  ultimately have "failure_inv this env k N (phases (job_begun this env j ?s1))
      (trace (job_begun this env j ?s1))"
    using assms(3) by (intro failure_job_begun)
  with True show ?thesis by (simp add: pool_run_returns [OF ok])
next
  case False
  with assms(2) show ?thesis by (simp add: pool_run_returns [OF ok])
qed

lemma failure_inv_submitted:
  assumes "j \<le> N" and ok: "\<not> identifier_throws this env"
  shows "failure_inv this env k N
      (phases (fold (pool_run this env) [0..<j] (initial_state this N)))
      (trace (fold (pool_run this env) [0..<j] (initial_state this N)))"
  using assms(1)
proof (induction j)
  case 0
  show ?case by (simp add: failure_inv_initial)
next
  case (Suc j)
  let ?s = "fold (pool_run this env) [0..<j] (initial_state this N)"
  from Suc have c: "failure_inv this env k N (phases ?s) (trace ?s)" and j: "j < N" by simp_all
  from j have "j \<le> N" by simp
  from failure_inv_pool_run [OF frame_inv_submitted [OF this ok] c j ok] show ?case by simp
qed

lemma reachable_failure_returns:
  assumes "start this env = Some s0" and "s = run this env k schedule s0"
    and ok: "\<not> identifier_throws this env"
  shows "failure_inv this env k (length (phases s)) (phases s) (trace s)"
proof -
  from start_unfold [OF assms(1)] obtain N where
    s0: "s0 = fold (pool_run this env) [0..<N] (initial_state this N)" by blast
  have f: "frame_inv this env k N N s0" unfolding s0 by (rule frame_inv_submitted [OF _ ok]) simp
  have c: "failure_inv this env k N (phases s0) (trace s0)"
    unfolding s0 by (rule failure_inv_submitted [OF _ ok]) simp
  from failure_inv_run [OF f c ok, of schedule] assms(2)
  have "failure_inv this env k N (phases s) (trace s)" by simp
  moreover from this have "length (phases s) = N" by (simp add: failure_inv_def)
  ultimately show ?thesis by simp
qed

text \<open>
  The step at which a failed read, encryption or transfer is delivered to its job: the job
  ends in its \<open>catch\<close> block, \<open>onError\<close> is called with that error and nothing else, and
  the promise is rejected with it unless it is settled already.
\<close>

lemma failing_segment:
  assumes f: "frame_inv this env k N N s"
    and c: "failure_inv this env k N (phases s) (trace s)" and n: "n < N"
    and ok: "\<not> identifier_throws this env"
    and bf: "block_failure this env k n = Some (site, e)"
    and fn: "fails_next (phases s ! n) site"
  obtains ps where "resume this env k n s = after_segment this env n ps"
    "seg_frame this env k N n s ps" "fst ps = Caught site"
    "trace (snd ps) = trace s @ [OnError e]" "promise (snd ps) = reject e (promise s)"
proof (cases "phases s ! n")
  case (AwaitRead r)
  from failure_invD(2) [OF c n] AwaitRead
  have r: "readBlock env (the_file this) (block_from this n) (block_to this n) = r"
    by (simp add: fail_at_def)
  from fn AwaitRead have site: "site = InRead \<or> site = InEncrypt" by simp
  from frame_invD(3) [OF f] n have l: "n < length (phases s)" by simp
  note b = block_failure_returns [OF ok, of k n]
  let ?ps = "after_read this env k n r s"
  have "fst ?ps = Caught site \<and> trace (snd ?ps) = trace s @ [OnError e]
      \<and> promise (snd ?ps) = reject e (promise s)"
  proof (cases r)
    case (Inl e')
    with r b bf show ?thesis by (simp add: after_read_def catch_error_def)
  next
    case (Inr data)
    show ?thesis
    proof (cases k)
      case None
      with r Inr b bf site show ?thesis
        by (auto simp: transfer_failure_def split: sum.splits)
    next
      case (Some key)
      show ?thesis
      proof (cases "encryptWithKeyUsingArtefacts env key data AES_GCM (randomBytes env n 12)")
        case (Inl e')
        with r \<open>r = Inr data\<close> Some b bf show ?thesis
          by (simp add: after_read_def catch_error_def Let_def)
      next
        case (Inr ct)
        with r \<open>r = Inr data\<close> Some b bf site show ?thesis
          by (auto simp: transfer_failure_def split: sum.splits)
      qed
    qed
  qed
  moreover from AwaitRead l have "resume this env k n s = after_segment this env n ?ps"
    by (simp add: resume_def)
  moreover note seg_frame_after_read [OF f n AwaitRead]
  ultimately show ?thesis using that [of ?ps] by blast
next
  case (AwaitPut r)
  from failure_invD(2) [OF c n] AwaitPut bf
  have "Some (site, e) = (case r of Inl e \<Rightarrow> Some (InPut, e) | Inr u \<Rightarrow> None)"
    by (simp add: fail_at_def)
  then have r: "r = Inl e" "site = InPut" by (cases r; simp)+
  from frame_invD(3) [OF f] n have l: "n < length (phases s)" by simp
  let ?ps = "after_put this env n r s"
  from r have "fst ?ps = Caught site \<and> trace (snd ?ps) = trace s @ [OnError e]
      \<and> promise (snd ?ps) = reject e (promise s)"
    by (simp add: after_put_def catch_error_def)
  moreover from AwaitPut l have "resume this env k n s = after_segment this env n ?ps"
    by (simp add: resume_def)
  moreover note seg_frame_after_put [OF f n AwaitPut]
  ultimately show ?thesis using that [of ?ps] by blast
qed (use fn in simp_all)

lemma failing_step:
  assumes f: "frame_inv this env k N N s"
    and c: "failure_inv this env k N (phases s) (trace s)" and n: "n < N"
    and ok: "\<not> identifier_throws this env"
    and bf: "block_failure this env k n = Some (site, e)"
    and fn: "fails_next (phases s ! n) site"
  shows "phases (resume this env k n s) ! n = Caught site"
    and "errors (trace (resume this env k n s)) = errors (trace s) @ [e]"
    and "promise (resume this env k n s) = reject e (promise s)"
proof -
  from fn have ns: "phases s ! n \<noteq> NotStarted" by (cases "phases s ! n") simp_all
  from frame_invD(3) [OF f] n have l: "n < length (phases s)" by simp
  from f c n ok bf fn obtain ps where r: "resume this env k n s = after_segment this env n ps"
    and sf: "seg_frame this env k N n s ps" and p: "fst ps = Caught site"
    and t: "trace (snd ps) = trace s @ [OnError e]"
    and pr: "promise (snd ps) = reject e (promise s)"
    by (rule failing_segment)
  obtain s' where ps: "ps = (Caught site, s')" using p by (cases ps) simp
  from sf ps have sf': "seg_frame this env k N n s (Caught site, s')" by simp
  have "phases (resume this env k n s) ! n = Caught site
      \<and> errors (trace (resume this env k n s)) = errors (trace s) @ [e]
      \<and> promise (resume this env k n s) = reject e (promise s)"
    using f n ns sf' ok
  proof (cases rule: after_segment_cases)
    case stay
    then show ?thesis by simp
  next
    case free
    with r l ps t pr show ?thesis by (simp add: errors_append)
  next
    case (dispatch m)
    with r l ps t pr show ?thesis by (simp add: job_begun_def errors_append)
  qed
  then show "phases (resume this env k n s) ! n = Caught site"
    and "errors (trace (resume this env k n s)) = errors (trace s) @ [e]"
    and "promise (resume this env k n s) = reject e (promise s)" by simp_all
qed

section \<open>An upload whose identifiers cannot be computed: every run\<close>

text \<open>
  When \<open>base64\<close> throws, \<open>start\<close> leaves every job it began in its \<open>catch\<close> block (or,
  with a pool that runs nothing, every job in the queue), and no step changes anything
  afterwards, since no job awaits a call.
\<close>

lemma update_first_unstarted:
  assumes "j < N"
  shows "(replicate j p @ replicate (N - j) q)[j := p]
    = replicate (Suc j) p @ replicate (N - Suc j) q"
proof -
  from assms obtain d where d: "N - j = Suc d" by (cases "N - j") simp_all
  then have "N - Suc j = d" by simp
  with d show ?thesis by (simp add: list_update_append replicate_append_same)
qed

lemma failed_step:
  assumes "identifier_throws this env" and "0 < simultaneousUploads this" and "j < N"
  shows "pool_run this env j (failed_state this N j) = failed_state this N (Suc j)"
  using assms(2) update_first_unstarted [OF assms(3), of "Caught InBlockID" NotStarted]
  by (simp add: pool_run_def after_segment_def pool_task_ended_def
      job_start_throws [OF assms(1)] catch_error_def failed_state_def initial_state_def
      replicate_append_same)

lemma queued_step:
  assumes "\<not> 0 < simultaneousUploads this"
  shows "pool_run this env j (queued_state this N j) = queued_state this N (Suc j)"
  using assms by (simp add: pool_run_def queued_state_def initial_state_def)

lemma failed_fold:
  assumes "identifier_throws this env" and "0 < simultaneousUploads this" and "j \<le> N"
  shows "fold (pool_run this env) [0..<j] (initial_state this N) = failed_state this N j"
  using assms(3)
proof (induction j)
  case 0
  show ?case by (simp add: failed_state_def initial_state_def)
next
  case (Suc j)
  then have "fold (pool_run this env) [0..<j] (initial_state this N) = failed_state this N j"
    and "j < N" by simp_all
  with failed_step [OF assms(1,2), of j N] show ?case by simp
qed

lemma queued_fold:
  assumes "\<not> 0 < simultaneousUploads this"
  shows "fold (pool_run this env) [0..<j] (initial_state this N) = queued_state this N j"
proof (induction j)
  case 0
  show ?case by (simp add: queued_state_def initial_state_def)
next
  case (Suc j)
  with queued_step [OF assms, of env j N] show ?case by simp
qed

lemma errors_replicate: "errors (replicate n (OnError e)) = replicate n e"
  by (induction n) simp_all

lemma successes_replicate: "successes (replicate n (OnError e)) = []"
  by (induction n) simp_all

lemma no_commit_after_error_replicate: "no_commit_after_error (replicate n (OnError e))"
  by (induction n) simp_all

lemma expected_promise_replicate:
  "expected_promise (replicate n e) [] = (if n = 0 then Pending else Rejected e)"
  by (cases n) simp_all

lemma stuck_failed_state: "stuck this N (failed_state this N N)"
  by (simp add: stuck_def failed_state_def initial_state_def errors_replicate
      expected_promise_replicate)

lemma stuck_queued_state: "stuck this N (queued_state this N N)"
  by (simp add: stuck_def queued_state_def initial_state_def)

lemma stuck_start:
  assumes "start this env = Some s0" and "identifier_throws this env"
  shows "\<exists>N. jobs_of (totalBlocks this) = Some N \<and> stuck this N s0"
proof -
  from start_unfold [OF assms(1)] obtain N where j: "jobs_of (totalBlocks this) = Some N"
    and s0: "s0 = fold (pool_run this env) [0..<N] (initial_state this N)" by blast
  have "stuck this N s0"
  proof (cases "0 < simultaneousUploads this")
    case True
    from failed_fold [OF assms(2) True, of N N] s0 stuck_failed_state show ?thesis by simp
  next
    case False
    from queued_fold [OF False, of env N N] s0 stuck_queued_state show ?thesis by simp
  qed
  with j show ?thesis by blast
qed

lemma stuckD:
  assumes "stuck this N s"
  shows "length (phases s) = N"
    and "p \<in> set (phases s) \<Longrightarrow> p = NotStarted \<or> p = Caught InBlockID"
    and "blockIDList s = []" and "artifacts s = artifacts (initial_state this N)"
    and "this_totalRemainingBytes s = totalRemainingBytes this"
    and "trace s = replicate (length (filter caught (phases s)))
                     (OnError (Error ''InvalidCharacterError''))"
    and "promise s = expected_promise (errors (trace s)) []"
  using assms by (simp_all add: stuck_def)

lemma stuck_nth:
  assumes "stuck this N s" and "n < N"
  shows "phases s ! n = NotStarted \<or> phases s ! n = Caught InBlockID"
  using stuckD(2) [OF assms(1), of "phases s ! n"] stuckD(1) [OF assms(1)] assms(2) by simp

lemma stuck_resume:
  assumes "stuck this N s"
  shows "resume this env k n s = s"
proof (cases rule: resume_cases [of this env k n s])
  case idle
  then show ?thesis .
next
  case (read r)
  with stuck_nth [OF assms, of n] stuckD(1) [OF assms] show ?thesis by simp
next
  case (put r)
  with stuck_nth [OF assms, of n] stuckD(1) [OF assms] show ?thesis by simp
next
  case (commit r)
  with stuck_nth [OF assms, of n] stuckD(1) [OF assms] show ?thesis by simp
qed

lemma stuck_run:
  assumes "stuck this N s"
  shows "run this env k schedule s = s"
  by (induction schedule) (simp_all add: run_def stuck_resume [OF assms])

lemma reachable_stuck:
  assumes "start this env = Some s0" and "s = run this env k schedule s0"
    and "identifier_throws this env"
  shows "jobs_of (totalBlocks this) = Some (length (phases s))"
    and "stuck this (length (phases s)) s"
proof -
  from stuck_start [OF assms(1,3)] obtain N where j: "jobs_of (totalBlocks this) = Some N"
    and s0: "stuck this N s0" by blast
  from stuck_run [OF s0] assms(2) have "s = s0" by simp
  with j s0 stuckD(1) [OF s0]
  show "jobs_of (totalBlocks this) = Some (length (phases s))"
    and "stuck this (length (phases s)) s" by simp_all
qed

text \<open>What the invariants of the other case say holds here too.\<close>

lemma stuck_counts:
  assumes "stuck this N s"
  shows "filter passed (phases s) = []" and "filter committing (phases s) = []"
    and "filter (\<lambda>p. p \<noteq> NotStarted \<and> p \<noteq> Caught InBlockID) (phases s) = []"
    and "filter is_commit (trace s) = []" and "filter is_read (trace s) = []"
    and "successes (trace s) = []"
    and "errors (trace s) = replicate (length (filter caught (phases s)))
                              (Error ''InvalidCharacterError'')"
    and "no_commit_after_error (trace s)"
proof -
  note d = stuckD [OF assms]
  have "\<not> passed p \<and> \<not> committing p" if "p \<in> set (phases s)" for p
    using d(2) [OF that] by auto
  with d(2) show "filter passed (phases s) = []" "filter committing (phases s) = []"
    "filter (\<lambda>p. p \<noteq> NotStarted \<and> p \<noteq> Caught InBlockID) (phases s) = []"
    by (auto simp: filter_empty_conv)
  from d(6) show "filter is_commit (trace s) = []" "filter is_read (trace s) = []"
    "successes (trace s) = []"
    "errors (trace s) = replicate (length (filter caught (phases s)))
                              (Error ''InvalidCharacterError'')"
    "no_commit_after_error (trace s)"
    by (simp_all add: successes_replicate errors_replicate no_commit_after_error_replicate)
qed

lemma stuck_counting:
  assumes "stuck this N s" and "well_planned this N"
    and "totalRemainingBytes this = fileSize this"
  shows "counting_inv this N (phases s) (this_totalRemainingBytes s) (trace s) (promise s)
           (artifacts s)"
proof -
  note d = stuckD [OF assms(1)] and c = stuck_counts [OF assms(1)]
  from assms(2) have N: "0 < N" and b: "0 < blockSize this"
    and lo: "(int N - 1) * blockSize this < fileSize this" by (simp_all add: well_planned_def)
  from N b have "0 \<le> (int N - 1) * blockSize this" by simp
  with lo have "0 \<le> fileSize this" by simp
  with N d(1,5,7) c assms(3) show ?thesis
    by (simp add: counting_inv_def commits_def)
qed

lemma stuck_artifacts:
  assumes "stuck this N s"
  shows "artifacts_inv this env k N (phases s) (artifacts s)"
proof -
  note d = stuckD [OF assms]
  have "art_at this env k (artifacts s) (phases s ! n) n" if "n < N" for n
    using stuck_nth [OF assms that] d(4)
    by (auto simp: art_at_def initial_state_def arr_get_def)
  with d(4) show ?thesis by (simp add: artifacts_inv_def initial_state_def)
qed

lemma stuck_failure:
  assumes "stuck this N s" and "identifier_throws this env"
  shows "failure_inv this env k N (phases s) (trace s)"
proof -
  note d = stuckD [OF assms(1)] and c = stuck_counts [OF assms(1)]
  let ?e = "Error ''InvalidCharacterError''"
  have bf: "block_failure this env k n = Some (InBlockID, ?e)" for n
    by (simp add: block_failure_def blockID_throws [OF assms(2)])
  have 1: "fail_at this env k (trace s) (phases s ! n) n" if n: "n < N" for n
  proof (cases "phases s ! n = NotStarted")
    case True
    then show ?thesis by (simp add: fail_at_def)
  next
    case False
    with stuck_nth [OF assms(1) n] have p: "phases s ! n = Caught InBlockID" by simp
    with n d(1) have "0 < length (filter caught (phases s))"
      by (intro count_pos [of n]) simp_all
    with c(7) have "?e \<in> set (errors (trace s))" by simp
    with p bf show ?thesis by (simp add: fail_at_def)
  qed
  have 2: "\<exists>n<N. \<exists>site. phases s ! n = Caught site
            \<and> (site = InCommit \<or> block_failure this env k n = Some (site, e))"
    if "e \<in> set (errors (trace s))" for e
  proof -
    from that c(7) have e: "e = ?e" and "filter caught (phases s) \<noteq> []" by auto
    then obtain p where "p \<in> set (phases s)" "caught p" by (auto simp: filter_empty_conv)
    then obtain n where n: "n < length (phases s)" "caught (phases s ! n)"
      by (auto simp: in_set_conv_nth)
    with stuck_nth [OF assms(1), of n] d(1) have "phases s ! n = Caught InBlockID" by auto
    with n(1) d(1) bf e show ?thesis by auto
  qed
  from d(1) 1 2 show ?thesis by (simp add: failure_inv_def)
qed

section \<open>What every run guarantees\<close>

text \<open>A step only appends to the trace: what was called stays called.\<close>

lemma trace_catch_error: "trace (snd (catch_error site e s)) = trace s @ [OnError e]"
  by (simp add: catch_error_def)

lemma trace_job_start: "\<exists>tr. trace (snd (job_start this env m s)) = trace s @ tr"
  by (cases "blockID (isRunningOnWeb env) (blockIDPrefix this) m")
     (simp_all add: job_start_def Let_def trace_catch_error)

lemma trace_pool_dispatch: "\<exists>tr. trace (pool_dispatch this env q s) = trace s @ tr"
proof (induction q arbitrary: s)
  case Nil
  show ?case by simp
next
  case (Cons m q)
  let ?ps = "job_start this env m (s\<lparr>queue := q\<rparr>)"
  let ?s' = "(snd ?ps)\<lparr>phases := (phases (snd ?ps))[m := fst ?ps]\<rparr>"
  from trace_job_start [of this env m "s\<lparr>queue := q\<rparr>"]
  obtain tr where t: "trace ?s' = trace s @ tr" by auto
  show ?case
  proof (cases "ended (fst ?ps)")
    case True
    from Cons [of ?s'] obtain tr' where "trace (pool_dispatch this env q ?s') = trace ?s' @ tr'"
      by blast
    with t True show ?thesis by (simp add: Let_def)
  next
    case False
    with t show ?thesis by (simp add: Let_def)
  qed
qed

lemma trace_pool_task_ended: "\<exists>tr. trace (pool_task_ended this env s) = trace s @ tr"
  by (simp add: pool_task_ended_def trace_pool_dispatch)

lemma trace_after_segment:
  "\<exists>tr. trace (after_segment this env n ps) = trace (snd ps) @ tr"
  using trace_pool_task_ended [of this env "(snd ps)\<lparr>phases := (phases (snd ps))[n := fst ps]\<rparr>"]
  by (simp add: after_segment_def Let_def)

lemma trace_report_and_return: "\<exists>tr. trace (snd (report_and_return this n s)) = trace s @ tr"
  by (simp add: report_and_return_def Let_def)

lemma trace_after_read: "\<exists>tr. trace (snd (after_read this env k n r s)) = trace s @ tr"
  by (cases r; cases k)
     (simp_all add: after_read_def trace_catch_error Let_def split: sum.splits prod.splits)

lemma trace_after_put: "\<exists>tr. trace (snd (after_put this env n r s)) = trace s @ tr"
proof (cases r)
  case (Inl e)
  then show ?thesis by (simp add: after_put_def trace_catch_error)
next
  case (Inr u)
  show ?thesis
  proof (cases "this_totalRemainingBytes s - blockSize this \<le> 0")
    case True
    with Inr show ?thesis by (auto simp: after_put_def Let_def)
  next
    case False
    with Inr trace_report_and_return
      [of this n "s\<lparr>this_totalRemainingBytes := this_totalRemainingBytes s - blockSize this\<rparr>"]
    show ?thesis by (simp add: after_put_def Let_def)
  qed
qed

lemma trace_after_commit: "\<exists>tr. trace (snd (after_commit this n r s)) = trace s @ tr"
  using trace_report_and_return [of this n s]
  by (cases r) (simp_all add: after_commit_def trace_catch_error)

lemma trace_resume: "\<exists>tr. trace (resume this env k n s) = trace s @ tr"
proof (cases "n < length (phases s)")
  case False
  then show ?thesis by (simp add: resume_def)
next
  case True
  show ?thesis
  proof (cases "phases s ! n")
    case (AwaitRead r)
    from trace_after_read [of this env k n r s] trace_after_segment [of this env n "after_read this env k n r s"]
      AwaitRead True
    show ?thesis by (auto simp: resume_def)
  next
    case (AwaitPut r)
    from trace_after_put [of this env n r s] trace_after_segment [of this env n "after_put this env n r s"]
      AwaitPut True
    show ?thesis by (auto simp: resume_def)
  next
    case (AwaitCommit r)
    from trace_after_commit [of this n r s] trace_after_segment [of this env n "after_commit this n r s"]
      AwaitCommit True
    show ?thesis by (auto simp: resume_def)
  qed (simp_all add: resume_def True)
qed

lemma trace_run: "\<exists>tr. trace (run this env k schedule s) = trace s @ tr"
proof (induction schedule arbitrary: s)
  case Nil
  then show ?case by (simp add: run_def)
next
  case (Cons n schedule)
  from Cons [of "resume this env k n s"] trace_resume [of this env k n s]
  show ?case by (auto simp: run_def)
qed

text \<open>
  The two cases together: what holds of every state a run can reach, whether or not the
  identifiers can be computed.
\<close>

lemma run_snoc:
  "run this env k (schedule @ [n]) s0 = resume this env k n (run this env k schedule s0)"
  by (simp add: run_def)

lemma reachable_counting:
  assumes "AzureBlockUpload pf url_arg file_arg opts = Inr this"
    and "0 < fileSize this" and "0 < blockSize this" and "start this env = Some s0"
    and "s = run this env k schedule s0"
  shows "well_planned this (length (phases s))"
    and "counting_inv this (length (phases s)) (phases s) (this_totalRemainingBytes s) (trace s)
           (promise s) (artifacts s)"
    and "set (filter is_commit (trace s)) \<subseteq> {expected_commit this env (length (phases s))}"
proof -
  have "well_planned this (length (phases s))
    \<and> counting_inv this (length (phases s)) (phases s) (this_totalRemainingBytes s) (trace s)
           (promise s) (artifacts s)
    \<and> set (filter is_commit (trace s)) \<subseteq> {expected_commit this env (length (phases s))}"
  proof (cases "identifier_throws this env")
    case False
    from reachable_facts(1,4,5) [OF assms False] show ?thesis by simp
  next
    case True
    note r = reachable_stuck [OF assms(4,5) True]
    from constructor_well_planned [OF assms(1-3)] obtain N where w: "well_planned this N"
      and t: "totalBlocks this = Fin (int N)" and b: "totalRemainingBytes this = fileSize this"
      by blast
    from t r(1) have "length (phases s) = N" by (simp add: jobs_of_def)
    with w have w': "well_planned this (length (phases s))" by simp
    from stuck_counting [OF r(2) w' b] stuck_counts(4) [OF r(2)] w' show ?thesis by simp
  qed
  then show "well_planned this (length (phases s))"
    and "counting_inv this (length (phases s)) (phases s) (this_totalRemainingBytes s) (trace s)
           (promise s) (artifacts s)"
    and "set (filter is_commit (trace s)) \<subseteq> {expected_commit this env (length (phases s))}"
    by simp_all
qed

lemma reachable_artifacts:
  assumes "start this env = Some s0" and "s = run this env k schedule s0"
  shows "jobs_of (totalBlocks this) = Some (length (phases s))"
    and "artifacts_inv this env k (length (phases s)) (phases s) (artifacts s)"
proof -
  have "jobs_of (totalBlocks this) = Some (length (phases s))
    \<and> artifacts_inv this env k (length (phases s)) (phases s) (artifacts s)"
  proof (cases "identifier_throws this env")
    case False
    from reachable_frame [OF assms False] show ?thesis by (simp add: frame_inv_def)
  next
    case True
    note r = reachable_stuck [OF assms True]
    from r(1) stuck_artifacts [OF r(2)] show ?thesis by simp
  qed
  then show "jobs_of (totalBlocks this) = Some (length (phases s))"
    and "artifacts_inv this env k (length (phases s)) (phases s) (artifacts s)" by simp_all
qed

lemma reachable_failure:
  assumes "start this env = Some s0" and "s = run this env k schedule s0"
  shows "failure_inv this env k (length (phases s)) (phases s) (trace s)"
proof (cases "identifier_throws this env")
  case False
  from reachable_failure_returns [OF assms False] show ?thesis .
next
  case True
  note r = reachable_stuck [OF assms True]
  from stuck_failure [OF r(2) True] show ?thesis .
qed

lemma example_constructed:
  "AzureBlockUpload example_platform (JS_string ''u'') (example_file 10) (example_options 4)
     = Inr (example_upload 10 4 10 (Fin 3))"
  by code_simp

lemma example_positive:
  "0 < fileSize (example_upload 10 4 10 (Fin 3))" "0 < blockSize (example_upload 10 4 10 (Fin 3))"
  by (simp_all add: example_upload_def)

lemma example_start: "start (example_upload 10 4 10 (Fin 3)) env = Some (example_started env)"
  by (simp add: start_def jobs_of_def example_upload_def example_started_def)

lemma example_run_eq:
  "example_run env k schedule
     = run (example_upload 10 4 10 (Fin 3)) env k schedule (example_started env)"
  by (simp add: example_run_def)

lemma example_resume:
  "resume (example_upload 10 4 10 (Fin 3)) env k n (example_run env k schedule)
     = example_run env k (schedule @ [n])"
  by (simp add: example_run_def run_snoc)

lemma example_wide_start: "start example_wide_upload env = Some (example_wide_started env)"
  by (simp add: start_def jobs_of_def example_upload_def example_wide_upload_def
      example_wide_started_def)



lemma caught_counted:
  assumes "counting_inv this N xs rem tr pr a" and "p \<in> set xs" and "caught p"
  shows "\<exists>e es. errors tr = e # es \<and> pr = Rejected e"
proof -
  from assms(2,3) have "filter caught xs \<noteq> []" by (auto simp: filter_empty_conv)
  with assms(1) have "errors tr \<noteq> []" by (auto simp: counting_inv_def)
  then obtain e es where e: "errors tr = e # es" by (cases "errors tr") simp_all
  with assms(1) have "pr = Rejected e" by (simp add: counting_inv_def)
  with e show ?thesis by blast
qed

lemma error_no_success:
  assumes "counting_inv this N xs rem tr pr a" and "errors tr \<noteq> []"
  shows "successes tr = []"
proof (rule ccontr)
  assume "successes tr \<noteq> []"
  with assms(1) have r: "filter (\<lambda>p. p \<noteq> Returned) xs = []" by (auto simp: counting_inv_def)
  have "\<not> caught x" if "x \<in> set xs" for x
    using r that by (auto simp: filter_empty_conv)
  then have "filter caught xs = []" by (simp add: filter_empty_conv)
  with assms show False by (simp add: counting_inv_def)
qed

lemma ended_failure:
  assumes "failure_inv this env k N xs tr" and "n < N" and "ended (xs ! n)"
  shows "case block_failure this env k n of
           Some (site, e) \<Rightarrow> xs ! n = Caught site \<and> e \<in> set (errors tr)
         | None \<Rightarrow> passed (xs ! n)"
proof (cases "xs ! n")
  case Returned
  with failure_invD(2) [OF assms(1,2)] show ?thesis by (simp add: fail_at_def)
next
  case (Caught site)
  with failure_invD(2) [OF assms(1,2)] show ?thesis
    by (cases "site = InCommit") (auto simp: fail_at_def)
qed (use assms(3) in simp_all)

lemma failing_step_any:
  assumes "start this env = Some s0" and "s = run this env k schedule s0"
    and "n < length (phases s)" and "block_failure this env k n = Some (site, e)"
    and "fails_next (phases s ! n) site"
  shows "phases (resume this env k n s) ! n = Caught site
    \<and> errors (trace (resume this env k n s)) = errors (trace s) @ [e]
    \<and> promise (resume this env k n s) = reject e (promise s)"
proof (cases "identifier_throws this env")
  case False
  from failing_step [OF reachable_frame(2) [OF assms(1,2) False]
      reachable_failure_returns [OF assms(1,2) False] assms(3) False assms(4,5)]
  show ?thesis by simp
next
  case True
  from stuck_nth [OF reachable_stuck(2) [OF assms(1,2) True] assms(3)] assms(5)
  show ?thesis by auto
qed

text \<open>
  Claim C2: in every state an upload can reach, under every schedule. A failure is tied to
  the call that failed: \<open>block_failure\<close> is the first of the identifier, the read, the
  encryption and the transfer of a block for which the collaborators return an error, with
  that error. When the job of such a block is resumed after the call that fails, it ends
  in its \<open>catch\<close> block in that very step, \<open>onError\<close> is called with that error and
  nothing else, and the promise is rejected with it unless it is settled already; the
  result a job awaits from its read is the one \<open>readBlock\<close> gave for its range. Once a
  job has ended, it is in its \<open>catch\<close> block with its error passed to \<open>onError\<close> if its
  block has such a failure, and past its transfer if not; and every error passed to
  \<open>onError\<close> is that of a job in its \<open>catch\<close> block (its block's failure, or the
  commit's). For a positive file size and block size moreover: if some job has ended in
  its \<open>catch\<close> block, the promise is rejected with the first error \<open>onError\<close> was called
  with; once \<open>onError\<close> has been called, \<open>onSuccess\<close> has not been and, later in the
  trace, neither it nor the commit is called; if a job failed before its transfer was done,
  the commit has not been called at all; and \<open>onError\<close> is called once for each failed
  job.
\<close>

theorem failure_rejects_and_stops_commit:
  assumes "AzureBlockUpload pf url_arg file_arg opts = Inr this"
    and "start this env = Some s0" and "s = run this env k schedule s0"
  shows "(\<forall>n<length (phases s). \<forall>site e.
            block_failure this env k n = Some (site, e) \<and> fails_next (phases s ! n) site \<longrightarrow>
              phases (resume this env k n s) ! n = Caught site
              \<and> errors (trace (resume this env k n s)) = errors (trace s) @ [e]
              \<and> promise (resume this env k n s) = reject e (promise s))
    \<and> (\<forall>n<length (phases s). \<forall>r. phases s ! n = AwaitRead r \<longrightarrow>
          r = readBlock env (the_file this) (block_from this n) (block_to this n))
    \<and> (\<forall>n<length (phases s). ended (phases s ! n) \<longrightarrow>
          (case block_failure this env k n of
             Some (site, e) \<Rightarrow> phases s ! n = Caught site \<and> e \<in> set (errors (trace s))
           | None \<Rightarrow> passed (phases s ! n)))
    \<and> (\<forall>e\<in>set (errors (trace s)). \<exists>n<length (phases s). \<exists>site.
          phases s ! n = Caught site
          \<and> (site = InCommit \<or> block_failure this env k n = Some (site, e)))
    \<and> (0 < fileSize this \<and> 0 < blockSize this \<longrightarrow>
          ((\<exists>p\<in>set (phases s). caught p) \<longrightarrow>
              (\<exists>e es. errors (trace s) = e # es \<and> promise s = Rejected e))
          \<and> (errors (trace s) \<noteq> [] \<longrightarrow> successes (trace s) = [])
          \<and> no_commit_after_error (trace s)
          \<and> ((\<exists>p\<in>set (phases s). caught p \<and> \<not> passed p) \<longrightarrow> commits (trace s) = 0)
          \<and> length (errors (trace s)) = length (filter caught (phases s)))"
proof -
  note c = reachable_failure [OF assms(2,3)]
  have a: "\<forall>n<length (phases s). \<forall>site e.
            block_failure this env k n = Some (site, e) \<and> fails_next (phases s ! n) site \<longrightarrow>
              phases (resume this env k n s) ! n = Caught site
              \<and> errors (trace (resume this env k n s)) = errors (trace s) @ [e]
              \<and> promise (resume this env k n s) = reject e (promise s)"
    using failing_step_any [OF assms(2,3)] by blast
  have b: "\<forall>n<length (phases s). \<forall>r. phases s ! n = AwaitRead r \<longrightarrow>
          r = readBlock env (the_file this) (block_from this n) (block_to this n)"
  proof (intro allI impI)
    fix n r assume "n < length (phases s)" and "phases s ! n = AwaitRead r"
    with failure_invD(2) [OF c, of n]
    show "r = readBlock env (the_file this) (block_from this n) (block_to this n)"
      by (simp add: fail_at_def)
  qed
  have d: "\<forall>n<length (phases s). ended (phases s ! n) \<longrightarrow>
          (case block_failure this env k n of
             Some (site, e) \<Rightarrow> phases s ! n = Caught site \<and> e \<in> set (errors (trace s))
           | None \<Rightarrow> passed (phases s ! n))"
    using ended_failure [OF c] by blast
  have e: "\<forall>e\<in>set (errors (trace s)). \<exists>n<length (phases s). \<exists>site.
          phases s ! n = Caught site
          \<and> (site = InCommit \<or> block_failure this env k n = Some (site, e))"
    using failure_invD(3) [OF c] by blast
  have f: "0 < fileSize this \<and> 0 < blockSize this \<longrightarrow>
          ((\<exists>p\<in>set (phases s). caught p) \<longrightarrow>
              (\<exists>e es. errors (trace s) = e # es \<and> promise s = Rejected e))
          \<and> (errors (trace s) \<noteq> [] \<longrightarrow> successes (trace s) = [])
          \<and> no_commit_after_error (trace s)
          \<and> ((\<exists>p\<in>set (phases s). caught p \<and> \<not> passed p) \<longrightarrow> commits (trace s) = 0)
          \<and> length (errors (trace s)) = length (filter caught (phases s))"
  proof
    assume "0 < fileSize this \<and> 0 < blockSize this"
    then have fs: "0 < fileSize this" and bs: "0 < blockSize this" by simp_all
    note f = reachable_counting [OF assms(1) fs bs assms(2,3)]
    have 1: "(\<exists>p\<in>set (phases s). caught p) \<longrightarrow>
              (\<exists>e es. errors (trace s) = e # es \<and> promise s = Rejected e)"
      using caught_counted [OF f(2)] by blast
    have 2: "errors (trace s) \<noteq> [] \<longrightarrow> successes (trace s) = []"
      using error_no_success [OF f(2)] by blast
    have 3: "no_commit_after_error (trace s)" using f(2) by (simp add: counting_inv_def)
    have 4: "(\<exists>p\<in>set (phases s). caught p \<and> \<not> passed p) \<longrightarrow> commits (trace s) = 0"
    proof
      assume "\<exists>p\<in>set (phases s). caught p \<and> \<not> passed p"
      then have "\<not> (\<forall>p\<in>set (phases s). passed p)" by blast
      with counter_zero_iff [OF f(2,1)] show "commits (trace s) = 0" by simp
    qed
    have 5: "length (errors (trace s)) = length (filter caught (phases s))"
      using f(2) by (simp add: counting_inv_def)
    from 1 2 3 4 5
    show "((\<exists>p\<in>set (phases s). caught p) \<longrightarrow>
              (\<exists>e es. errors (trace s) = e # es \<and> promise s = Rejected e))
          \<and> (errors (trace s) \<noteq> [] \<longrightarrow> successes (trace s) = [])
          \<and> no_commit_after_error (trace s)
          \<and> ((\<exists>p\<in>set (phases s). caught p \<and> \<not> passed p) \<longrightarrow> commits (trace s) = 0)
          \<and> length (errors (trace s)) = length (filter caught (phases s))" by blast
  qed
  from a b d e f show ?thesis by blast
qed

text \<open>
  Claim C2 on four runs. The read of block 0 fails: the step that resumes job 0 calls
  \<open>onError\<close> with the error of the read and rejects the promise with it. The read of
  block 0 and the transfer of block 1 both fail: the promise is rejected with the error
  that came first in the run, whichever it is. Every encryption fails: the first job
  resumed rejects the promise with the error of the encryption. The transfer of block 1
  fails and the others go on: no commit and no \<open>onSuccess\<close>.
\<close>

theorem failure_rejects_and_stops_commit_witness:
  "0 < fileSize (example_upload 10 4 10 (Fin 3)) \<and> 0 < blockSize (example_upload 10 4 10 (Fin 3))
   \<and> block_failure (example_upload 10 4 10 (Fin 3)) example_read_failing_env None 0
       = Some (InRead, Error ''read failed'')
   \<and> phases (example_run example_read_failing_env None [0]) ! 0 = Caught InRead
   \<and> errors (trace (example_run example_read_failing_env None [0])) = [Error ''read failed'']
   \<and> promise (example_run example_read_failing_env None [0]) = Rejected (Error ''read failed'')
   \<and> errors (trace (example_run example_read_failing_env None [0, 1, 1]))
       = [Error ''read failed'', Error ''transfer failed'']
   \<and> promise (example_run example_read_failing_env None [0, 1, 1])
       = Rejected (Error ''read failed'')
   \<and> errors (trace (example_run example_read_failing_env None [1, 1, 0]))
       = [Error ''transfer failed'', Error ''read failed'']
   \<and> promise (example_run example_read_failing_env None [1, 1, 0])
       = Rejected (Error ''transfer failed'')
   \<and> phases (example_run example_encrypt_failing_env (Some (EncryptionKey ''key'')) [0]) ! 0
       = Caught InEncrypt
   \<and> promise (example_run example_encrypt_failing_env (Some (EncryptionKey ''key'')) [0])
       = Rejected (Error ''encryption failed'')
   \<and> phases (example_run example_failing_env None [1, 1, 0, 0, 2, 2])
       = [Returned, Caught InPut, Returned]
   \<and> promise (example_run example_failing_env None [1, 1, 0, 0, 2, 2])
       = Rejected (Error ''transfer failed'')
   \<and> commits (trace (example_run example_failing_env None [1, 1, 0, 0, 2, 2])) = 0
   \<and> successes (trace (example_run example_failing_env None [1, 1, 0, 0, 2, 2])) = []"
proof -
  let ?U = "example_upload 10 4 10 (Fin 3)"
  let ?key = "Some (EncryptionKey ''key'')"
  note t = failure_rejects_and_stops_commit
    [OF example_constructed example_start example_run_eq]
  note step = t [THEN conjunct1, rule_format]
  note sized = t [THEN conjunct2, THEN conjunct2, THEN conjunct2, THEN conjunct2, THEN mp,
    OF conjI [OF example_positive]]
  note first = sized [THEN conjunct1, rule_format]
  note no_success = sized [THEN conjunct2, THEN conjunct1, rule_format]
  note no_commit = sized [THEN conjunct2, THEN conjunct2, THEN conjunct2, THEN conjunct1,
    rule_format]
  have r0: "phases (example_run example_read_failing_env None [])
      = [AwaitRead (Inl (Error ''read failed'')), AwaitRead (Inr ''data''), NotStarted]"
    and r0e: "errors (trace (example_run example_read_failing_env None [])) = []"
    and r0p: "promise (example_run example_read_failing_env None []) = Pending"
    and bf: "block_failure ?U example_read_failing_env None 0
      = Some (InRead, Error ''read failed'')"
    by code_simp+
  from r0 bf have "0 < length (phases (example_run example_read_failing_env None []))"
    and "block_failure ?U example_read_failing_env None 0 = Some (InRead, Error ''read failed'')
      \<and> fails_next (phases (example_run example_read_failing_env None []) ! 0) InRead"
    by simp_all
  from step [OF this] r0e r0p
  have 1: "phases (example_run example_read_failing_env None [0]) ! 0 = Caught InRead
      \<and> errors (trace (example_run example_read_failing_env None [0])) = [Error ''read failed'']
      \<and> promise (example_run example_read_failing_env None [0]) = Rejected (Error ''read failed'')"
    by (simp add: example_resume)
  have e2: "errors (trace (example_run example_read_failing_env None [0, 1, 1]))
      = [Error ''read failed'', Error ''transfer failed'']"
    and p2: "phases (example_run example_read_failing_env None [0, 1, 1])
      = [Caught InRead, Caught InPut, AwaitRead (Inr ''data'')]"
    and e3: "errors (trace (example_run example_read_failing_env None [1, 1, 0]))
      = [Error ''transfer failed'', Error ''read failed'']"
    and p3: "phases (example_run example_read_failing_env None [1, 1, 0])
      = [Caught InRead, Caught InPut, AwaitRead (Inr ''data'')]"
    by code_simp+
  from p2 have "\<exists>p\<in>set (phases (example_run example_read_failing_env None [0, 1, 1])). caught p"
    by simp
  from first [OF this] e2
  have 2: "promise (example_run example_read_failing_env None [0, 1, 1])
      = Rejected (Error ''read failed'')" by auto
  from p3 have "\<exists>p\<in>set (phases (example_run example_read_failing_env None [1, 1, 0])). caught p"
    by simp
  from first [OF this] e3
  have 3: "promise (example_run example_read_failing_env None [1, 1, 0])
      = Rejected (Error ''transfer failed'')" by auto
  have p4: "phases (example_run example_encrypt_failing_env ?key [0])
      = [Caught InEncrypt, AwaitRead (Inr ''data''), AwaitRead (Inr ''data'')]"
    and e4: "errors (trace (example_run example_encrypt_failing_env ?key [0]))
      = [Error ''encryption failed'']"
    by code_simp+
  from p4 have "\<exists>p\<in>set (phases (example_run example_encrypt_failing_env ?key [0])). caught p"
    by simp
  from first [OF this] e4
  have 4: "promise (example_run example_encrypt_failing_env ?key [0])
      = Rejected (Error ''encryption failed'')" by auto
  let ?s = "example_run example_failing_env None [1, 1, 0, 0, 2, 2]"
  have p: "phases ?s = [Returned, Caught InPut, Returned]" by code_simp
  have e: "errors (trace ?s) = [Error ''transfer failed'']" by code_simp
  from p have c: "\<exists>p\<in>set (phases ?s). caught p \<and> \<not> passed p"
    and c': "\<exists>p\<in>set (phases ?s). caught p" by simp_all
  from first [OF c'] e have 5: "promise ?s = Rejected (Error ''transfer failed'')" by auto
  from no_commit [OF c] have 6: "commits (trace ?s) = 0" .
  from e have "errors (trace ?s) \<noteq> []" by simp
  from no_success [OF this] have 7: "successes (trace ?s) = []" .
  from 1 2 3 4 5 6 7 bf e2 e3 p4 p example_positive show ?thesis by simp
qed

text \<open>
  Claim C3, as amended: when every job has returned (all blocks read, transferred and the
  commit awaited without error), the promise is resolved with no value; \<open>onSuccess\<close> has
  been called once, with the artifacts object, which is there whether or not a key was
  given: without a key its \<open>iv\<close> and \<open>at\<close> are empty.
\<close>

theorem success_resolves_without_value:
  assumes "AzureBlockUpload pf url_arg file_arg opts = Inr this"
    and "0 < fileSize this" and "0 < blockSize this" and "start this env = Some s0"
    and "s = run this env k schedule s0"
  shows "(\<forall>p\<in>set (phases s). p = Returned) \<longrightarrow>
           promise s = Fulfilled None \<and> successes (trace s) = [artifacts s]
           \<and> ad (artifacts s) = ''none'' \<and> encryption_stratergy (artifacts s) = AES_GCM
           \<and> (k = None \<longrightarrow> iv (artifacts s) = [] \<and> at_of (artifacts s) = [])"
proof
  assume r: "\<forall>p\<in>set (phases s). p = Returned"
  note f = reachable_counting [OF assms]
  note a = reachable_artifacts(2) [OF assms(4,5)]
  from r have p: "\<forall>p\<in>set (phases s). passed p" by auto
  with counter_zero_iff [OF f(2,1)] have c: "commits (trace s) = 1" by simp
  from r have "filter committing (phases s) = []" "filter caught (phases s) = []"
    by (auto simp: filter_empty_conv)
  with f(2) c have l: "length (successes (trace s)) = 1" and e: "errors (trace s) = []"
    by (simp_all add: counting_inv_def)
  from l have n: "successes (trace s) \<noteq> []" by auto
  with f(2) have s: "successes (trace s) = [artifacts s]" by (auto simp: counting_inv_def)
  from f(2) e s have "promise s = Fulfilled None" by (simp add: counting_inv_def)
  with s a show "promise s = Fulfilled None \<and> successes (trace s) = [artifacts s]
           \<and> ad (artifacts s) = ''none'' \<and> encryption_stratergy (artifacts s) = AES_GCM
           \<and> (k = None \<longrightarrow> iv (artifacts s) = [] \<and> at_of (artifacts s) = [])"
    by (simp add: artifacts_inv_def)
qed

text \<open>The amended claim C3 on a run with a key, block 1 finishing first.\<close>

theorem success_resolves_without_value_witness:
  "0 < fileSize (example_upload 10 4 10 (Fin 3)) \<and> 0 < blockSize (example_upload 10 4 10 (Fin 3))
   \<and> phases (example_run example_env (Some (EncryptionKey ''key'')) [1, 1, 0, 0, 2, 2, 2])
       = [Returned, Returned, Returned]
   \<and> promise (example_run example_env (Some (EncryptionKey ''key'')) [1, 1, 0, 0, 2, 2, 2])
       = Fulfilled None
   \<and> successes (trace (example_run example_env (Some (EncryptionKey ''key'')) [1, 1, 0, 0, 2, 2, 2]))
       = [artifacts (example_run example_env (Some (EncryptionKey ''key'')) [1, 1, 0, 0, 2, 2, 2])]"
proof -
  let ?s = "example_run example_env (Some (EncryptionKey ''key'')) [1, 1, 0, 0, 2, 2, 2]"
  have p: "phases ?s = [Returned, Returned, Returned]" by code_simp
  from success_resolves_without_value
    [OF example_constructed example_positive example_start example_run_eq,
      of example_env "Some (EncryptionKey ''key'')" "[1, 1, 0, 0, 2, 2, 2]"] p example_positive
  show ?thesis by simp
qed

text \<open>
  Claim C3 as stated fails on the run without a key: the promise is resolved with
  \<open>undefined\<close>, not with \<open>{ artifacts }\<close>, and the artifacts object is present (it is what
  \<open>onSuccess\<close> receives, with the three ranges in it) although no key was supplied.
\<close>

theorem success_without_key_resolves_undefined:
  "phases (example_run example_env None [0, 0, 1, 1, 2, 2, 2]) = [Returned, Returned, Returned]
   \<and> promise (example_run example_env None [0, 0, 1, 1, 2, 2, 2]) = Fulfilled None
   \<and> successes (trace (example_run example_env None [0, 0, 1, 1, 2, 2, 2]))
       = [\<lparr>iv = [], ad = ''none'', at_of = [],
           range_of = [Some ''bytes=0-3'', Some ''bytes=4-7'', Some ''bytes=8-9''],
           encryption_stratergy = AES_GCM\<rparr>]"
  by code_simp

text \<open>
  Claim C6, as amended: under every schedule and for every upload, at the index of every
  block the range is recorded iff the read of the block has succeeded, with or without a
  key; the initialisation vector (the random bytes the job drew) and the tag are recorded
  iff a key was given and the encryption of the block has succeeded; without a key the
  lists \<open>iv\<close> and \<open>at\<close> stay empty; and (for a positive file size and block size) what
  \<open>onSuccess\<close> is called with is the artifacts object, key or no key.
\<close>

theorem artifacts_recorded_per_block:
  assumes "AzureBlockUpload pf url_arg file_arg opts = Inr this"
    and "start this env = Some s0" and "s = run this env k schedule s0"
  shows "(\<forall>n<length (phases s).
            arr_get (range_of (artifacts s)) n
              = (if read_done (phases s ! n) then Some (range_string this n) else None)
            \<and> arr_get (iv (artifacts s)) n
              = (if k \<noteq> None \<and> encrypt_done (phases s ! n)
                 then Some (randomBytes env n 12) else None)
            \<and> (arr_get (at_of (artifacts s)) n \<noteq> None)
              = (k \<noteq> None \<and> encrypt_done (phases s ! n)))
    \<and> (k = None \<longrightarrow> iv (artifacts s) = [] \<and> at_of (artifacts s) = [])
    \<and> jobs_of (totalBlocks this) = Some (length (phases s))
    \<and> (0 < fileSize this \<and> 0 < blockSize this \<longrightarrow> set (successes (trace s)) \<subseteq> {artifacts s})"
proof -
  note f = reachable_artifacts [OF assms(2,3)]
  note a = f(2)
  from a have 1: "\<forall>n<length (phases s).
            arr_get (range_of (artifacts s)) n
              = (if read_done (phases s ! n) then Some (range_string this n) else None)
            \<and> arr_get (iv (artifacts s)) n
              = (if k \<noteq> None \<and> encrypt_done (phases s ! n)
                 then Some (randomBytes env n 12) else None)
            \<and> (arr_get (at_of (artifacts s)) n \<noteq> None)
              = (k \<noteq> None \<and> encrypt_done (phases s ! n))"
    by (simp add: artifacts_inv_def art_at_def)
  from a have 2: "k = None \<longrightarrow> iv (artifacts s) = [] \<and> at_of (artifacts s) = []"
    by (simp add: artifacts_inv_def)
  have 3: "0 < fileSize this \<and> 0 < blockSize this \<longrightarrow> set (successes (trace s)) \<subseteq> {artifacts s}"
  proof
    assume "0 < fileSize this \<and> 0 < blockSize this"
    then have "counting_inv this (length (phases s)) (phases s) (this_totalRemainingBytes s)
        (trace s) (promise s) (artifacts s)"
      using reachable_counting(2) [OF assms(1) _ _ assms(2,3)] by simp
    then show "set (successes (trace s)) \<subseteq> {artifacts s}" by (auto simp: counting_inv_def)
  qed
  from 1 2 3 f(1) show ?thesis by blast
qed

text \<open>The amended claim C6 once block 1 has been read and encrypted, block 0 not yet.\<close>

theorem artifacts_recorded_per_block_witness:
  "0 < fileSize (example_upload 10 4 10 (Fin 3)) \<and> 0 < blockSize (example_upload 10 4 10 (Fin 3))
   \<and> arr_get (range_of (artifacts (example_run example_env (Some (EncryptionKey ''key'')) [1]))) 1
       = Some ''bytes=4-7''
   \<and> arr_get (iv (artifacts (example_run example_env (Some (EncryptionKey ''key'')) [1]))) 1
       = Some ''rrrrrrrrrrrr''
   \<and> arr_get (range_of (artifacts (example_run example_env (Some (EncryptionKey ''key'')) [1]))) 0
       = None"
proof -
  let ?s = "example_run example_env (Some (EncryptionKey ''key'')) [1]"
  have p: "phases ?s = [AwaitRead (Inr ''data''), AwaitPut (Inr ()), NotStarted]" by code_simp
  have r: "range_string (example_upload 10 4 10 (Fin 3)) 1 = ''bytes=4-7''" by code_simp
  have i: "randomBytes example_env 1 12 = ''rrrrrrrrrrrr''" by code_simp
  from artifacts_recorded_per_block
    [OF example_constructed example_start example_run_eq,
      of example_env "Some (EncryptionKey ''key'')" "[1]"] p r i example_positive
  show ?thesis by simp
qed

text \<open>
  Claim C6 as stated fails without a key: the range of block 0 is recorded as soon as it
  is read, and \<open>onSuccess\<close> receives the artifacts with all three ranges.
\<close>

theorem range_recorded_without_key:
  "range_of (artifacts (example_run example_env None [0])) = [Some ''bytes=0-3'']
   \<and> trace (example_run example_env None [0, 0])
       = [Call_readBlock 0 4, Call_readBlock 4 8, Call_putBlock ''u'' ''data'' ''YmxvY2sgICAgMA=='',
          OnProgress 1 (Fin 3) (JS_string ''a.bin''), Call_readBlock 8 10]
   \<and> successes (trace (example_run example_env None [0, 0, 2, 1, 1, 2, 2]))
       = [\<lparr>iv = [], ad = ''none'', at_of = [],
           range_of = [Some ''bytes=0-3'', Some ''bytes=4-7'', Some ''bytes=8-9''],
           encryption_stratergy = AES_GCM\<rparr>]"
  by code_simp

text \<open>
  The list and the positions in the two cases: with computable identifiers the jobs begun
  have theirs in the list, each at its index, and none ends where the identifier is
  computed; otherwise the list is empty and no job gets further.
\<close>

lemma started_listed:
  assumes "pool_inv this env N N s" and "n < N" and "phases s ! n \<noteq> NotStarted"
  shows "n < length (blockIDList s)" and "blockIDList s ! n = the_blockID this env n"
proof -
  note d = pool_invD [OF assms(1)]
  from d(6) [OF assms(2)] assms(3) show n: "n < length (blockIDList s)" by simp
  have "blockIDList s ! n = map (the_blockID this env) [0..<length (blockIDList s)] ! n"
    using d(5) by simp
  also have "\<dots> = the_blockID this env n" using n by simp
  finally show "blockIDList s ! n = the_blockID this env n" .
qed

lemma identifiers_listed:
  assumes "\<not> identifier_throws this env"
  shows "map Inr (map (the_blockID this env) [0..<m])
    = map (blockID (isRunningOnWeb env) (blockIDPrefix this)) [0..<m]"
  by (simp add: blockID_returns [OF assms])

lemma never_caught_at_identifier:
  assumes "failure_inv this env k N xs tr" and "\<not> identifier_throws this env" and "n < N"
  shows "xs ! n \<noteq> Caught InBlockID"
proof
  assume "xs ! n = Caught InBlockID"
  with failure_invD(2) [OF assms(1,3)]
  have "\<exists>e. block_failure this env k n = Some (InBlockID, e)" by (auto simp: fail_at_def)
  then show False
    by (auto simp: block_failure_returns [OF assms(2)] transfer_failure_def
        split: sum.splits option.splits)
qed

lemma reachable_list:
  assumes "start this env = Some s0" and "s = run this env k schedule s0"
  shows "map Inr (blockIDList s)
      = map (blockID (isRunningOnWeb env) (blockIDPrefix this)) [0..<length (blockIDList s)]"
    and "n < length (phases s) \<Longrightarrow> phases s ! n \<noteq> NotStarted
      \<Longrightarrow> phases s ! n \<noteq> Caught InBlockID
      \<Longrightarrow> n < length (blockIDList s)
          \<and> blockID (isRunningOnWeb env) (blockIDPrefix this) n = Inr (blockIDList s ! n)"
    and "length (blockIDList s)
      = length (filter (\<lambda>p. p \<noteq> NotStarted \<and> p \<noteq> Caught InBlockID) (phases s))"
    and "length (filter is_read (trace s)) = length (blockIDList s)"
    and "if identifier_throws this env
         then blockIDList s = []
           \<and> (\<forall>n<length (phases s). phases s ! n = NotStarted \<or> phases s ! n = Caught InBlockID)
         else (\<forall>n<length (phases s). phases s ! n \<noteq> Caught InBlockID)
           \<and> length (blockIDList s) = length (filter (\<lambda>p. p \<noteq> NotStarted) (phases s))"
proof -
  let ?N = "length (phases s)"
  let ?id = "blockID (isRunningOnWeb env) (blockIDPrefix this)"
  have all: "map Inr (blockIDList s) = map ?id [0..<length (blockIDList s)]
    \<and> (\<forall>n<?N. phases s ! n \<noteq> NotStarted \<longrightarrow> phases s ! n \<noteq> Caught InBlockID
          \<longrightarrow> n < length (blockIDList s) \<and> ?id n = Inr (blockIDList s ! n))
    \<and> length (blockIDList s)
        = length (filter (\<lambda>p. p \<noteq> NotStarted \<and> p \<noteq> Caught InBlockID) (phases s))
    \<and> length (filter is_read (trace s)) = length (blockIDList s)
    \<and> (if identifier_throws this env
        then blockIDList s = []
          \<and> (\<forall>n<?N. phases s ! n = NotStarted \<or> phases s ! n = Caught InBlockID)
        else (\<forall>n<?N. phases s ! n \<noteq> Caught InBlockID)
          \<and> length (blockIDList s) = length (filter (\<lambda>p. p \<noteq> NotStarted) (phases s)))"
  proof (cases "identifier_throws this env")
    case False
    note p = frame_invD(1) [OF reachable_frame(2) [OF assms False]]
    note d = pool_invD [OF p]
    note c = reachable_failure_returns [OF assms False]
    have nc: "\<forall>n<?N. phases s ! n \<noteq> Caught InBlockID"
      using never_caught_at_identifier [OF c False] by blast
    have 1: "map Inr (blockIDList s) = map ?id [0..<length (blockIDList s)]"
      using d(5) identifiers_listed [OF False, of "length (blockIDList s)"] by simp
    have 2: "\<forall>n<?N. phases s ! n \<noteq> NotStarted \<longrightarrow> phases s ! n \<noteq> Caught InBlockID
          \<longrightarrow> n < length (blockIDList s) \<and> ?id n = Inr (blockIDList s ! n)"
      using started_listed [OF p] blockID_returns [OF False] by simp
    have 3: "length (blockIDList s) = length (filter (\<lambda>p. p \<noteq> NotStarted) (phases s))"
      using started_count [of "phases s" "length (blockIDList s)"] d(3,6) by simp
    have "filter (\<lambda>p. p \<noteq> NotStarted \<and> p \<noteq> Caught InBlockID) (phases s)
        = filter (\<lambda>p. p \<noteq> NotStarted) (phases s)"
      using nc by (intro filter_cong) (auto simp: in_set_conv_nth)
    with 1 2 3 nc d(8) False show ?thesis by simp
  next
    case True
    note r = reachable_stuck(2) [OF assms True]
    note d = stuckD [OF r] and c = stuck_counts [OF r]
    from stuck_nth [OF r]
    have "\<forall>n<?N. phases s ! n = NotStarted \<or> phases s ! n = Caught InBlockID" by blast
    with d(3) c(3,5) True show ?thesis by auto
  qed
  from all show "map Inr (blockIDList s) = map ?id [0..<length (blockIDList s)]" by blast
  from all show "n < length (blockIDList s) \<and> ?id n = Inr (blockIDList s ! n)"
    if "n < length (phases s)" "phases s ! n \<noteq> NotStarted" "phases s ! n \<noteq> Caught InBlockID"
    using that by blast
  from all show "length (blockIDList s)
      = length (filter (\<lambda>p. p \<noteq> NotStarted \<and> p \<noteq> Caught InBlockID) (phases s))" by blast
  from all show "length (filter is_read (trace s)) = length (blockIDList s)" by blast
  from all show "if identifier_throws this env
         then blockIDList s = []
           \<and> (\<forall>n<length (phases s). phases s ! n = NotStarted \<or> phases s ! n = Caught InBlockID)
         else (\<forall>n<length (phases s). phases s ! n \<noteq> Caught InBlockID)
           \<and> length (blockIDList s) = length (filter (\<lambda>p. p \<noteq> NotStarted) (phases s))"
    by blast
qed

text \<open>
  Claim C8: under every schedule and for every upload, \<open>blockIDList\<close> is the list of the
  identifiers of blocks \<open>0, 1, ...\<close> in that order, up to the number of jobs that pushed
  theirs, and every job that has begun (whose transfer may be under way or over) has its
  identifier at its own index. The one job that has begun and is not in the list is a job
  that ended where its identifier is computed; there is such a job only on the web with a
  prefix holding a code unit above \<open>U+00FF\<close>, and then the list is empty. For a positive
  file size and block size, every commit is called with the identifiers of all
  \<open>totalBlocks\<close> blocks in the order of the blocks.
\<close>

theorem blockIDList_in_block_order:
  assumes "AzureBlockUpload pf url_arg file_arg opts = Inr this"
    and "start this env = Some s0" and "s = run this env k schedule s0"
  shows "map Inr (blockIDList s)
        = map (blockID (isRunningOnWeb env) (blockIDPrefix this)) [0..<length (blockIDList s)]
    \<and> (\<forall>n<length (phases s).
          phases s ! n \<noteq> NotStarted \<and> phases s ! n \<noteq> Caught InBlockID \<longrightarrow>
            n < length (blockIDList s)
            \<and> blockID (isRunningOnWeb env) (blockIDPrefix this) n = Inr (blockIDList s ! n))
    \<and> ((\<exists>n<length (phases s). phases s ! n = Caught InBlockID) \<longrightarrow>
          isRunningOnWeb env \<and> \<not> list_all (\<lambda>c. c < 256) (blockIDPrefix this)
          \<and> blockIDList s = [])
    \<and> jobs_of (totalBlocks this) = Some (length (phases s))
    \<and> (0 < fileSize this \<and> 0 < blockSize this \<longrightarrow>
         (\<forall>ev\<in>set (trace s). is_commit ev \<longrightarrow>
            (\<exists>ids. ev = Call_putBlockList (url this) ids (fileType this)
               \<and> map Inr ids = map (blockID (isRunningOnWeb env) (blockIDPrefix this))
                                 [0..<length (phases s)])))"
proof -
  let ?id = "blockID (isRunningOnWeb env) (blockIDPrefix this)"
  note l = reachable_list [OF assms(2,3)]
  note j = reachable_artifacts(1) [OF assms(2,3)]
  have 2: "\<forall>n<length (phases s).
          phases s ! n \<noteq> NotStarted \<and> phases s ! n \<noteq> Caught InBlockID \<longrightarrow>
            n < length (blockIDList s) \<and> ?id n = Inr (blockIDList s ! n)"
    using l(2) by blast
  have 3: "(\<exists>n<length (phases s). phases s ! n = Caught InBlockID) \<longrightarrow>
          isRunningOnWeb env \<and> \<not> list_all (\<lambda>c. c < 256) (blockIDPrefix this)
          \<and> blockIDList s = []"
    using l(5) by (auto simp: identifier_throws_def split: if_splits)
  have 4: "0 < fileSize this \<and> 0 < blockSize this \<longrightarrow>
         (\<forall>ev\<in>set (trace s). is_commit ev \<longrightarrow>
            (\<exists>ids. ev = Call_putBlockList (url this) ids (fileType this)
               \<and> map Inr ids = map ?id [0..<length (phases s)]))"
  proof (intro impI ballI)
    fix ev
    assume "0 < fileSize this \<and> 0 < blockSize this" and ev: "ev \<in> set (trace s)" "is_commit ev"
    then have "set (filter is_commit (trace s)) \<subseteq> {expected_commit this env (length (phases s))}"
      using reachable_counting(3) [OF assms(1) _ _ assms(2,3)] by simp
    with ev have e: "ev = expected_commit this env (length (phases s))" by auto
    have "\<not> identifier_throws this env"
    proof
      assume t: "identifier_throws this env"
      from stuck_counts(4) [OF reachable_stuck(2) [OF assms(2,3) t]] ev show False
        by (auto simp: filter_empty_conv)
    qed
    from identifiers_listed [OF this, of "length (phases s)"] e
    show "\<exists>ids. ev = Call_putBlockList (url this) ids (fileType this)
               \<and> map Inr ids = map ?id [0..<length (phases s)]"
      by (auto simp: expected_commit_def)
  qed
  from l(1) 2 3 4 j show ?thesis by blast
qed

text \<open>Claim C8 on a run in which block 0 is the last to finish.\<close>

theorem blockIDList_in_block_order_witness:
  "0 < fileSize (example_upload 10 4 10 (Fin 3)) \<and> 0 < blockSize (example_upload 10 4 10 (Fin 3))
   \<and> blockIDList (example_run example_env None [1, 1, 2, 2, 0, 0, 0])
       = [''YmxvY2sgICAgMA=='', ''YmxvY2sgICAgMQ=='', ''YmxvY2sgICAgMg=='']
   \<and> filter is_commit (trace (example_run example_env None [1, 1, 2, 2, 0, 0, 0]))
       = [Call_putBlockList ''u'' [''YmxvY2sgICAgMA=='', ''YmxvY2sgICAgMQ=='', ''YmxvY2sgICAgMg=='']
            ''text/plain'']"
proof -
  let ?s = "example_run example_env None [1, 1, 2, 2, 0, 0, 0]"
  have l: "length (blockIDList ?s) = 3" by code_simp
  have m: "map (blockID (isRunningOnWeb example_env)
        (blockIDPrefix (example_upload 10 4 10 (Fin 3)))) [0..<3]
      = map Inr [''YmxvY2sgICAgMA=='', ''YmxvY2sgICAgMQ=='', ''YmxvY2sgICAgMg=='']" by code_simp
  have c: "filter is_commit (trace ?s)
      = [Call_putBlockList ''u'' [''YmxvY2sgICAgMA=='', ''YmxvY2sgICAgMQ=='', ''YmxvY2sgICAgMg=='']
            ''text/plain'']" by code_simp
  from blockIDList_in_block_order
    [OF example_constructed example_start example_run_eq,
      of example_env None "[1, 1, 2, 2, 0, 0, 0]"]
  have "map Inr (blockIDList ?s)
      = map (blockID (isRunningOnWeb example_env)
          (blockIDPrefix (example_upload 10 4 10 (Fin 3)))) [0..<length (blockIDList ?s)]"
    by blast
  with l m have "map (Inr :: string \<Rightarrow> error + string) (blockIDList ?s)
      = map Inr [''YmxvY2sgICAgMA=='', ''YmxvY2sgICAgMQ=='', ''YmxvY2sgICAgMg=='']" by simp
  then have "blockIDList ?s = [''YmxvY2sgICAgMA=='', ''YmxvY2sgICAgMQ=='', ''YmxvY2sgICAgMg=='']"
    unfolding inj_map_eq_map [OF inj_Inr] .
  with c example_positive show ?thesis by simp
qed

text \<open>
  Claim C10, as amended: under every schedule and for every upload, the length of
  \<open>blockIDList\<close> is the number of jobs that got past the computation of their identifier,
  which is also the number of reads called (the identifier is pushed in the segment that
  calls the read, before the call); a job that failed later than that still has its
  identifier at its index; and the blocks transferred are at most as many as the
  identifiers. Unless the upload runs on the web with a prefix holding a code unit above
  \<open>U+00FF\<close>, no job fails where the identifier is computed, so the length of the list is
  the number of jobs begun; with such a prefix every job that begins fails there, and the
  list stays empty.
\<close>

theorem blockIDList_counts_identified_jobs:
  assumes "start this env = Some s0" and "s = run this env k schedule s0"
  shows "length (blockIDList s)
        = length (filter (\<lambda>p. p \<noteq> NotStarted \<and> p \<noteq> Caught InBlockID) (phases s))
    \<and> length (filter is_read (trace s)) = length (blockIDList s)
    \<and> (\<forall>n<length (phases s). caught (phases s ! n) \<and> phases s ! n \<noteq> Caught InBlockID \<longrightarrow>
          n < length (blockIDList s)
          \<and> blockID (isRunningOnWeb env) (blockIDPrefix this) n = Inr (blockIDList s ! n))
    \<and> length (filter passed (phases s)) \<le> length (blockIDList s)
    \<and> (if isRunningOnWeb env \<and> \<not> list_all (\<lambda>c. c < 256) (blockIDPrefix this)
        then blockIDList s = []
          \<and> (\<forall>n<length (phases s). phases s ! n = NotStarted \<or> phases s ! n = Caught InBlockID)
        else (\<forall>n<length (phases s). phases s ! n \<noteq> Caught InBlockID)
          \<and> length (blockIDList s) = length (filter (\<lambda>p. p \<noteq> NotStarted) (phases s)))"
proof -
  note l = reachable_list [OF assms]
  have 3: "\<forall>n<length (phases s). caught (phases s ! n) \<and> phases s ! n \<noteq> Caught InBlockID \<longrightarrow>
          n < length (blockIDList s)
          \<and> blockID (isRunningOnWeb env) (blockIDPrefix this) n = Inr (blockIDList s ! n)"
  proof (intro allI impI)
    fix n assume n: "n < length (phases s)"
      and c: "caught (phases s ! n) \<and> phases s ! n \<noteq> Caught InBlockID"
    from c have "phases s ! n \<noteq> NotStarted" by auto
    with l(2) [OF n] c
    show "n < length (blockIDList s)
          \<and> blockID (isRunningOnWeb env) (blockIDPrefix this) n = Inr (blockIDList s ! n)"
      by simp
  qed
  have "length (filter passed (phases s))
      \<le> length (filter (\<lambda>p. p \<noteq> NotStarted \<and> p \<noteq> Caught InBlockID) (phases s))"
  proof -
    have "filter passed (phases s)
        = filter passed (filter (\<lambda>p. p \<noteq> NotStarted \<and> p \<noteq> Caught InBlockID) (phases s))"
      by (auto intro: filter_cong)
    then show ?thesis by (metis length_filter_le)
  qed
  with l(3) have 4: "length (filter passed (phases s)) \<le> length (blockIDList s)" by simp
  from l(5) have 5: "if isRunningOnWeb env \<and> \<not> list_all (\<lambda>c. c < 256) (blockIDPrefix this)
        then blockIDList s = []
          \<and> (\<forall>n<length (phases s). phases s ! n = NotStarted \<or> phases s ! n = Caught InBlockID)
        else (\<forall>n<length (phases s). phases s ! n \<noteq> Caught InBlockID)
          \<and> length (blockIDList s) = length (filter (\<lambda>p. p \<noteq> NotStarted) (phases s))"
    by (simp add: identifier_throws_def)
  from l(3,4) 3 4 5 show ?thesis by blast
qed

text \<open>
  The amended claim C10 on a run in which the transfer of block 1 has failed: three
  identifiers, that of block 1 among them, and one block transferred.
\<close>

theorem blockIDList_counts_identified_jobs_witness:
  "0 < fileSize (example_upload 10 4 10 (Fin 3)) \<and> 0 < blockSize (example_upload 10 4 10 (Fin 3))
   \<and> phases (example_run example_failing_env None [1, 1, 0, 0])
       = [Returned, Caught InPut, AwaitRead (Inr ''data'')]
   \<and> length (blockIDList (example_run example_failing_env None [1, 1, 0, 0])) = 3
   \<and> blockIDList (example_run example_failing_env None [1, 1, 0, 0]) ! 1 = ''YmxvY2sgICAgMQ==''
   \<and> length (filter passed (phases (example_run example_failing_env None [1, 1, 0, 0]))) = 1"
proof -
  let ?s = "example_run example_failing_env None [1, 1, 0, 0]"
  have p: "phases ?s = [Returned, Caught InPut, AwaitRead (Inr ''data'')]" by code_simp
  have b: "blockID (isRunningOnWeb example_failing_env)
      (blockIDPrefix (example_upload 10 4 10 (Fin 3))) 1 = Inr ''YmxvY2sgICAgMQ==''"
    by code_simp
  from blockIDList_counts_identified_jobs
    [OF example_start example_run_eq,
      of example_failing_env None "[1, 1, 0, 0]"] p b example_positive
  show ?thesis by simp
qed

text \<open>
  Claim C10 as stated fails on the web with the prefix \<open>U+0100\<close>: \<open>btoa\<close> throws in every
  job before the push, so all three jobs have begun and failed, \<open>onError\<close> was called three
  times and the promise is rejected, while \<open>blockIDList\<close> is empty and no read was
  called.
\<close>

theorem failed_job_has_no_identifier:
  "AzureBlockUpload example_platform (JS_string ''u'') (example_file 10) example_wide_options
     = Inr example_wide_upload
   \<and> blockID (isRunningOnWeb example_env) (blockIDPrefix example_wide_upload) 0
       = Inl (Error ''InvalidCharacterError'')
   \<and> start example_wide_upload example_env = Some (example_wide_started example_env)
   \<and> phases (run example_wide_upload example_env None [0, 1, 2] (example_wide_started example_env))
       = [Caught InBlockID, Caught InBlockID, Caught InBlockID]
   \<and> blockIDList (run example_wide_upload example_env None [0, 1, 2]
        (example_wide_started example_env)) = []
   \<and> trace (run example_wide_upload example_env None [0, 1, 2] (example_wide_started example_env))
       = [OnError (Error ''InvalidCharacterError''), OnError (Error ''InvalidCharacterError''),
          OnError (Error ''InvalidCharacterError'')]
   \<and> promise (run example_wide_upload example_env None [0, 1, 2]
        (example_wide_started example_env)) = Rejected (Error ''InvalidCharacterError'')
   \<and> length (blockIDList (run example_wide_upload example_env None [0, 1, 2]
        (example_wide_started example_env)))
       \<noteq> length (filter (\<lambda>p. p \<noteq> NotStarted)
            (phases (run example_wide_upload example_env None [0, 1, 2]
               (example_wide_started example_env))))"
  by code_simp

end
